theory Spec2Isabelle
  imports Main "HOL-Library.Word"
begin

section \<open>Subscriber registry and event broadcast (package events)\<close>

text \<open>
  The development embeds \<^verbatim>\<open>src/events/eventhandler.go\<close>: the global table
  \<^verbatim>\<open>gameSubscribers\<close>, \<^verbatim>\<open>CreateGameSubscriber\<close>, \<^verbatim>\<open>RemoveGameSubscriber\<close>,
  \<^verbatim>\<open>BroadcastGameEvent\<close> and \<^verbatim>\<open>BroadcastPersonalizedGameStatus\<close>.

  What Go does behind the scenes is made explicit:
  \<^item> channels are heap objects; the heap is a function from channel references to channel
    contents, and \<^verbatim>\<open>make\<close> takes the next unused reference;
  \<^item> a \<^verbatim>\<open>context.Context\<close> belongs to the caller; the model keeps, per context reference,
    whether its \<^verbatim>\<open>Done()\<close> channel is closed;
  \<^item> \<^verbatim>\<open>go f(x)\<close> appends a call to a list of spawned goroutines, which a separate
    scheduler step runs later;
  \<^item> a \<^verbatim>\<open>select\<close> with several ready cases picks one of them at random (Go language
    specification, "Select statements"); the pick is an argument of the model;
  \<^item> sending on a closed channel and closing a closed channel panic; a panic is the
    \<open>Inl\<close> branch of the result.
  Every call of the package runs from start to end without another one interleaving:
  the source takes no lock, and the model does not describe data races. Under that
  reading the only slice header that outlives a call is the one stored in the table, so
  the in-place \<^verbatim>\<open>append\<close> of \<^verbatim>\<open>RemoveGameSubscriber\<close> is not observable through an alias,
  and a slice is modelled by a list.
\<close>

subsection \<open>Data model (package models)\<close>

datatype ('g, 'd) any =
    AOther 'd
  | AString string
  | AGame 'g
  | AMap "(string \<times> ('g, 'd) any) list"

text \<open>\<^verbatim>\<open>type GameEvent struct { Type string; GameID string; Data interface{} }\<close>.
  The field \<^verbatim>\<open>GameID\<close> of the event is written \<open>EvGameID\<close>, the subscriber has a field of
  the same name.\<close>

record ('g, 'd) GameEvent =
  Type :: string
  EvGameID :: string
  Data :: "('g, 'd) any"

type_synonym chan_ref = nat
type_synonym ctx_ref = nat

text \<open>\<^verbatim>\<open>type GameSubscriber struct { ID string; GameID string; Channel chan GameEvent;
  Context context.Context }\<close>. The struct is never written after its creation, so a
  pointer to it is modelled by its value.\<close>

record GameSubscriber =
  ID :: string
  GameID :: string
  Channel :: chan_ref
  Context :: ctx_ref

text \<open>A buffered channel: the queued values (oldest first), the capacity, the closed flag.\<close>

record ('g, 'd) chan =
  chan_buf :: "('g, 'd) GameEvent list"
  chan_cap :: nat
  chan_closed :: bool

datatype panic = SendOnClosedChannel | CloseOfClosedChannel

record ('g, 'd) world =
  gameSubscribers :: "string \<rightharpoonup> GameSubscriber list"
  chans :: "chan_ref \<Rightarrow> ('g, 'd) chan"
  next_chan :: chan_ref
  ctx_done :: "ctx_ref \<Rightarrow> bool"
  spawned :: "GameSubscriber list"

definition make_chan :: "nat \<Rightarrow> ('g, 'd) chan" where
  "make_chan n = \<lparr>chan_buf = [], chan_cap = n, chan_closed = False\<rparr>"

text \<open>Program start: \<^verbatim>\<open>var gameSubscribers = make(map[string][]*models.GameSubscriber)\<close>,
  no channel allocated, no context cancelled, no goroutine spawned.\<close>

definition init_world :: "('g, 'd) world" where
  "init_world = \<lparr>gameSubscribers = Map.empty, chans = (\<lambda>_. make_chan 0), next_chan = 0,
     ctx_done = (\<lambda>_. False), spawned = []\<rparr>"

text \<open>The Go index expression \<^verbatim>\<open>gameSubscribers[k]\<close>: the nil slice when the key is absent.
  The specification calls it \<open>SubscribersFor\<close>.\<close>

definition SubscribersFor :: "('g, 'd) world \<Rightarrow> string \<Rightarrow> GameSubscriber list" where
  "SubscribersFor w k = (case gameSubscribers w k of None \<Rightarrow> [] | Some subs \<Rightarrow> subs)"

subsection \<open>Channel primitives\<close>

definition chan_send :: "chan_ref \<Rightarrow> ('g, 'd) GameEvent \<Rightarrow> ('g, 'd) world \<Rightarrow> panic + ('g, 'd) world" where
  "chan_send c event w =
     (if chan_closed (chans w c) then Inl SendOnClosedChannel
      else Inr (w\<lparr>chans := (chans w)(c := (chans w c)\<lparr>chan_buf := chan_buf (chans w c) @ [event]\<rparr>)\<rparr>))"

definition chan_close :: "chan_ref \<Rightarrow> ('g, 'd) world \<Rightarrow> panic + ('g, 'd) world" where
  "chan_close c w =
     (if chan_closed (chans w c) then Inl CloseOfClosedChannel
      else Inr (w\<lparr>chans := (chans w)(c := (chans w c)\<lparr>chan_closed := True\<rparr>)\<rparr>))"

text \<open>A send case of a \<^verbatim>\<open>select\<close> can proceed when the buffer has room; on a closed
  channel it proceeds too, and panics.\<close>

definition send_ready :: "('g, 'd) chan \<Rightarrow> bool" where
  "send_ready ch = (chan_closed ch \<or> length (chan_buf ch) < chan_cap ch)"

datatype select_case = CaseSend | CaseDone | CaseDefault

text \<open>The \<^verbatim>\<open>select\<close> of both broadcast loops has a send case, a receive case on
  \<^verbatim>\<open>Context.Done()\<close> and a default case. When both communications can proceed the
  runtime picks one of the two (\<open>prefer_send\<close> is its pick); the default case runs only
  when none can.\<close>

definition choose_case :: "bool \<Rightarrow> bool \<Rightarrow> bool \<Rightarrow> select_case" where
  "choose_case can_send is_done prefer_send =
     (if can_send \<and> is_done then (if prefer_send then CaseSend else CaseDone)
      else if can_send then CaseSend
      else if is_done then CaseDone
      else CaseDefault)"

definition select_outcome :: "('g, 'd) world \<Rightarrow> GameSubscriber \<Rightarrow> bool \<Rightarrow> select_case" where
  "select_outcome w subscriber prefer_send =
     choose_case (send_ready (chans w (Channel subscriber))) (ctx_done w (Context subscriber)) prefer_send"

subsection \<open>CreateGameSubscriber\<close>

definition hex_digit :: "nat \<Rightarrow> char" where
  "hex_digit n = ''0123456789abcdef'' ! n"

text \<open>\<^verbatim>\<open>fmt.Sprintf("%x", bytes)\<close>: two lower-case hexadecimal digits per byte. The
  argument is the buffer as \<^verbatim>\<open>rand.Read\<close> has filled it.\<close>

definition generateSubscriberID :: "8 word list \<Rightarrow> string" where
  "generateSubscriberID bytes = concat (map (\<lambda>b. [hex_digit (unat b div 16), hex_digit (unat b mod 16)]) bytes)"

definition CreateGameSubscriber ::
  "string \<Rightarrow> ctx_ref \<Rightarrow> 8 word list \<Rightarrow> ('g, 'd) world \<Rightarrow> GameSubscriber \<times> ('g, 'd) world" where
  "CreateGameSubscriber gameID ctx rnd w =
     (let subscriber = \<lparr>ID = generateSubscriberID rnd, GameID = gameID,
                         Channel = next_chan w, Context = ctx\<rparr>;
          w1 = w\<lparr>chans := (chans w)(next_chan w := make_chan 10), next_chan := Suc (next_chan w)\<rparr>
      in (subscriber,
          w1\<lparr>gameSubscribers := (gameSubscribers w1)(gameID \<mapsto> SubscribersFor w1 gameID @ [subscriber])\<rparr>))"

subsection \<open>RemoveGameSubscriber\<close>

text \<open>The \<^verbatim>\<open>for i, sub := range subscribers\<close> loop: \<open>rest\<close> is the part of the slice still to
  visit and \<open>i\<close> the index of its head. At the first entry with the ID of \<open>subscriber\<close> the
  table entry becomes \<^verbatim>\<open>append(subscribers[:i], subscribers[i+1:]...)\<close>, the channel of
  that entry is closed, and the loop breaks.\<close>

fun remove_loop ::
  "GameSubscriber \<Rightarrow> GameSubscriber list \<Rightarrow> nat \<Rightarrow> GameSubscriber list \<Rightarrow> ('g, 'd) world
     \<Rightarrow> panic + ('g, 'd) world" where
  "remove_loop subscriber subscribers i [] w = Inr w"
| "remove_loop subscriber subscribers i (sub # rest) w =
     (if ID sub = ID subscriber then
        chan_close (Channel sub)
          (w\<lparr>gameSubscribers := (gameSubscribers w)(GameID subscriber \<mapsto>
                take i subscribers @ drop (Suc i) subscribers)\<rparr>)
      else remove_loop subscriber subscribers (Suc i) rest w)"

definition RemoveGameSubscriber :: "GameSubscriber \<Rightarrow> ('g, 'd) world \<Rightarrow> panic + ('g, 'd) world" where
  "RemoveGameSubscriber subscriber w =
     (case gameSubscribers w (GameID subscriber) of
        None \<Rightarrow> Inr w
      | Some subscribers \<Rightarrow>
          (case remove_loop subscriber subscribers 0 subscribers w of
             Inl p \<Rightarrow> Inl p
           | Inr w1 \<Rightarrow>
               if length (SubscribersFor w1 (GameID subscriber)) = 0
               then Inr (w1\<lparr>gameSubscribers := (gameSubscribers w1)(GameID subscriber := None)\<rparr>)
               else Inr w1))"

subsection \<open>BroadcastGameEvent and BroadcastPersonalizedGameStatus\<close>

text \<open>One \<^verbatim>\<open>select\<close> statement of a broadcast loop.\<close>

definition select_step ::
  "GameSubscriber \<Rightarrow> ('g, 'd) GameEvent \<Rightarrow> bool \<Rightarrow> ('g, 'd) world \<Rightarrow> panic + ('g, 'd) world" where
  "select_step subscriber event prefer_send w =
     (case select_outcome w subscriber prefer_send of
        CaseSend \<Rightarrow> chan_send (Channel subscriber) event w
      | CaseDone \<Rightarrow> Inr (w\<lparr>spawned := spawned w @ [subscriber]\<rparr>)
      | CaseDefault \<Rightarrow> Inr w)"

text \<open>\<^verbatim>\<open>for _, subscriber := range subscribers { select { ... } }\<close>; \<open>pick i\<close> is the
  runtime's pick in iteration \<open>i\<close>.\<close>

fun broadcast_loop ::
  "('g, 'd) GameEvent \<Rightarrow> (nat \<Rightarrow> bool) \<Rightarrow> nat \<Rightarrow> GameSubscriber list \<Rightarrow> ('g, 'd) world
     \<Rightarrow> panic + ('g, 'd) world" where
  "broadcast_loop event pick i [] w = Inr w"
| "broadcast_loop event pick i (subscriber # rest) w =
     (case select_step subscriber event (pick i) w of
        Inl p \<Rightarrow> Inl p
      | Inr w1 \<Rightarrow> broadcast_loop event pick (Suc i) rest w1)"

definition BroadcastGameEvent ::
  "string \<Rightarrow> ('g, 'd) GameEvent \<Rightarrow> (nat \<Rightarrow> bool) \<Rightarrow> ('g, 'd) world \<Rightarrow> panic + ('g, 'd) world" where
  "BroadcastGameEvent gameID event pick w =
     (case gameSubscribers w gameID of
        None \<Rightarrow> Inr w
      | Some subscribers \<Rightarrow> broadcast_loop event pick 0 subscribers w)"

definition game_status_event :: "string \<Rightarrow> 'g \<Rightarrow> ('g, 'd) GameEvent" where
  "game_status_event gameID game =
     \<lparr>Type = ''game_status'', EvGameID = gameID,
      Data = AMap [(''gameID'', AString gameID), (''game'', AGame game)]\<rparr>"

text \<open>The loop of \<^verbatim>\<open>BroadcastPersonalizedGameStatus\<close> builds its event inside the loop
  body, once per subscriber.\<close>

fun personalized_loop ::
  "string \<Rightarrow> 'g \<Rightarrow> (nat \<Rightarrow> bool) \<Rightarrow> nat \<Rightarrow> GameSubscriber list \<Rightarrow> ('g, 'd) world
     \<Rightarrow> panic + ('g, 'd) world" where
  "personalized_loop gameID game pick i [] w = Inr w"
| "personalized_loop gameID game pick i (subscriber # rest) w =
     (let event = game_status_event gameID game in
      case select_step subscriber event (pick i) w of
        Inl p \<Rightarrow> Inl p
      | Inr w1 \<Rightarrow> personalized_loop gameID game pick (Suc i) rest w1)"

definition BroadcastPersonalizedGameStatus ::
  "string \<Rightarrow> 'g \<Rightarrow> (nat \<Rightarrow> bool) \<Rightarrow> ('g, 'd) world \<Rightarrow> panic + ('g, 'd) world" where
  "BroadcastPersonalizedGameStatus gameID game pick w =
     (case gameSubscribers w gameID of
        None \<Rightarrow> Inr w
      | Some subscribers \<Rightarrow> personalized_loop gameID game pick 0 subscribers w)"

subsection \<open>The environment: scheduler, connection handlers, callers\<close>

text \<open>The scheduler runs the spawned goroutine number \<open>i\<close>, a call
  \<^verbatim>\<open>RemoveGameSubscriber(subscriber)\<close>.\<close>

definition run_spawned :: "nat \<Rightarrow> ('g, 'd) world \<Rightarrow> panic + ('g, 'd) world" where
  "run_spawned i w =
     (if i < length (spawned w)
      then RemoveGameSubscriber (spawned w ! i)
             (w\<lparr>spawned := take i (spawned w) @ drop (Suc i) (spawned w)\<rparr>)
      else Inr w)"

text \<open>The owner of a context cancels it.\<close>

definition cancel :: "ctx_ref \<Rightarrow> ('g, 'd) world \<Rightarrow> ('g, 'd) world" where
  "cancel c w = w\<lparr>ctx_done := (ctx_done w)(c := True)\<rparr>"

text \<open>The connection handler takes the oldest event off a channel
  (\<^verbatim>\<open>event := <-subscriber.Channel\<close> in \<^verbatim>\<open>GameSSEHandler\<close>); nothing happens on an empty
  buffer.\<close>

definition chan_recv :: "chan_ref \<Rightarrow> ('g, 'd) world \<Rightarrow> ('g, 'd) world" where
  "chan_recv c w = w\<lparr>chans := (chans w)(c := (chans w c)\<lparr>chan_buf := tl (chan_buf (chans w c))\<rparr>)\<rparr>"

datatype ('g, 'd) call =
    Register string ctx_ref "8 word list"
  | Deregister GameSubscriber
  | Broadcast string "('g, 'd) GameEvent" "nat \<Rightarrow> bool"
  | BroadcastPersonalized string 'g "nat \<Rightarrow> bool"
  | RunSpawned nat
  | Cancel ctx_ref
  | Receive chan_ref

fun step :: "('g, 'd) call \<Rightarrow> ('g, 'd) world \<Rightarrow> panic + ('g, 'd) world" where
  "step (Register gameID ctx rnd) w = Inr (snd (CreateGameSubscriber gameID ctx rnd w))"
| "step (Deregister subscriber) w = RemoveGameSubscriber subscriber w"
| "step (Broadcast gameID event pick) w = BroadcastGameEvent gameID event pick w"
| "step (BroadcastPersonalized gameID game pick) w = BroadcastPersonalizedGameStatus gameID game pick w"
| "step (RunSpawned i) w = run_spawned i w"
| "step (Cancel c) w = Inr (cancel c w)"
| "step (Receive c) w = Inr (chan_recv c w)"

text \<open>A run of the program: the calls one after the other, stopping at the first panic.\<close>

fun run :: "('g, 'd) call list \<Rightarrow> ('g, 'd) world \<Rightarrow> panic + ('g, 'd) world" where
  "run [] w = Inr w"
| "run (c # cs) w = (case step c w of Inl p \<Rightarrow> Inl p | Inr w1 \<Rightarrow> run cs w1)"

subsection \<open>Well-formed worlds\<close>

text \<open>The subscribers that the table holds, under any key.\<close>

definition registered :: "('g, 'd) world \<Rightarrow> GameSubscriber set" where
  "registered w = {s. \<exists>k. s \<in> set (SubscribersFor w k)}"

text \<open>What every run of the program keeps true: no key maps to an empty slice; a slice
  holds no subscriber twice; a subscriber sits under its own \<open>GameID\<close>, its channel is
  allocated and open; no two registered subscribers share a channel; an allocated channel
  has capacity 10 and holds at most 10 events.\<close>

definition inv_world :: "('g, 'd) world \<Rightarrow> bool" where
  "inv_world w \<longleftrightarrow>
     (\<forall>k. gameSubscribers w k \<noteq> Some []) \<and>
     (\<forall>k. distinct (SubscribersFor w k)) \<and>
     (\<forall>k. \<forall>s \<in> set (SubscribersFor w k).
        GameID s = k \<and> Channel s < next_chan w \<and> \<not> chan_closed (chans w (Channel s))) \<and>
     inj_on Channel (registered w) \<and>
     (\<forall>c < next_chan w. chan_cap (chans w c) = 10 \<and> length (chan_buf (chans w c)) \<le> 10)"

text \<open>The subscribers for which a broadcast loop over \<open>subs\<close>, started in \<open>w\<close> at
  iteration \<open>i\<close>, takes the \<^verbatim>\<open>Context.Done()\<close> case, in loop order.\<close>

fun scheduled_removals ::
  "('g, 'd) world \<Rightarrow> (nat \<Rightarrow> bool) \<Rightarrow> nat \<Rightarrow> GameSubscriber list \<Rightarrow> GameSubscriber list" where
  "scheduled_removals w pick i [] = []"
| "scheduled_removals w pick i (s # rest) =
     (if select_outcome w s (pick i) = CaseDone then [s] else []) @ scheduled_removals w pick (Suc i) rest"

text \<open>Two runtimes: one that takes the send case whenever it has the choice, one that
  takes the \<^verbatim>\<open>Context.Done()\<close> case.\<close>

definition prefer_send :: "nat \<Rightarrow> bool" where
  "prefer_send i = True"

definition prefer_done :: "nat \<Rightarrow> bool" where
  "prefer_done i = False"

subsection \<open>The personalized broadcast as the specification words it\<close>

text \<open>Section 4.2 of the specification: the variant "performs the same fan-out but wraps a
  full current-state snapshot in a "status" event per subscriber".\<close>

definition spec_status_event :: "string \<Rightarrow> 'g \<Rightarrow> ('g, 'd) GameEvent" where
  "spec_status_event sessionID snapshot =
     \<lparr>Type = ''status'', EvGameID = sessionID,
      Data = AMap [(''gameID'', AString sessionID), (''game'', AGame snapshot)]\<rparr>"

definition spec_BroadcastPersonalized ::
  "string \<Rightarrow> 'g \<Rightarrow> (nat \<Rightarrow> bool) \<Rightarrow> ('g, 'd) world \<Rightarrow> panic + ('g, 'd) world" where
  "spec_BroadcastPersonalized sessionID snapshot pick w =
     BroadcastGameEvent sessionID (spec_status_event sessionID snapshot) pick w"

subsection \<open>Concrete worlds for the scenarios\<close>

definition move_event :: "(nat, nat) GameEvent" where
  "move_event = \<lparr>Type = ''move'', EvGameID = ''g1'', Data = AOther 4\<rparr>"

text \<open>One subscriber, \<open>S1\<close>, registered for session "g1" with context 0.\<close>

definition world_g1 :: "(nat, nat) world" where
  "world_g1 = snd (CreateGameSubscriber ''g1'' 0 [1, 2, 3, 4, 5, 6, 7, 8] init_world)"

definition S1 :: GameSubscriber where
  "S1 = fst (CreateGameSubscriber ''g1'' 0 [1, 2, 3, 4, 5, 6, 7, 8] (init_world :: (nat, nat) world))"

text \<open>A second subscriber, \<open>S2\<close>, registered for session "g2" with context 1.\<close>

definition world_g1_g2 :: "(nat, nat) world" where
  "world_g1_g2 = snd (CreateGameSubscriber ''g2'' 1 [9, 10, 11, 12, 13, 14, 15, 16] world_g1)"

definition S2 :: GameSubscriber where
  "S2 = fst (CreateGameSubscriber ''g2'' 1 [9, 10, 11, 12, 13, 14, 15, 16] world_g1)"

text \<open>Scenario 4 of the specification: \<open>S1\<close> registered, then ten broadcasts to "g1" that
  nobody consumes. \<open>world_queued q\<close> is the world of \<open>S1\<close> with the events \<open>q\<close> in its
  channel.\<close>

definition numbered_event :: "nat \<Rightarrow> (nat, nat) GameEvent" where
  "numbered_event n = \<lparr>Type = ''move'', EvGameID = ''g1'', Data = AOther n\<rparr>"

definition world_queued :: "(nat, nat) GameEvent list \<Rightarrow> (nat, nat) world" where
  "world_queued q = world_g1\<lparr>chans := (chans world_g1)(0 := (make_chan 10)\<lparr>chan_buf := q\<rparr>)\<rparr>"

definition scenario4_calls :: "(nat, nat) call list" where
  "scenario4_calls =
     Register ''g1'' 0 [1, 2, 3, 4, 5, 6, 7, 8] #
     map (\<lambda>n. Broadcast ''g1'' (numbered_event n) prefer_send) [0, 1, 2, 3, 4, 5, 6, 7, 8, 9]"

text \<open>Scenario 5 of the specification: \<open>S1\<close> registered and its context cancelled;
  \<open>world_g1_delivered\<close> is that world with one event in the channel of \<open>S1\<close>.\<close>

definition world_g1_cancelled :: "(nat, nat) world" where
  "world_g1_cancelled = cancel 0 world_g1"

definition world_g1_delivered :: "(nat, nat) world" where
  "world_g1_delivered =
     world_g1_cancelled\<lparr>chans := (chans world_g1_cancelled)(0 := (make_chan 10)\<lparr>chan_buf := [move_event]\<rparr>)\<rparr>"







section \<open>The invariant and the loops\<close>

lemma inv_init: "inv_world init_world"
  by (simp add: inv_world_def init_world_def SubscribersFor_def registered_def make_chan_def)

lemma SubscribersFor_None: "gameSubscribers w k = None \<Longrightarrow> SubscribersFor w k = []"
  by (simp add: SubscribersFor_def)

lemma SubscribersFor_Some: "gameSubscribers w k = Some subs \<Longrightarrow> SubscribersFor w k = subs"
  by (simp add: SubscribersFor_def)

lemma remove_loop_char:
  "remove_loop s (pre @ rest) (length pre) rest w =
     (if dropWhile (\<lambda>x. ID x \<noteq> ID s) rest = [] then Inr w
      else chan_close (Channel (hd (dropWhile (\<lambda>x. ID x \<noteq> ID s) rest)))
            (w\<lparr>gameSubscribers := (gameSubscribers w)(GameID s \<mapsto>
                 pre @ takeWhile (\<lambda>x. ID x \<noteq> ID s) rest @ tl (dropWhile (\<lambda>x. ID x \<noteq> ID s) rest))\<rparr>))"
proof (induction rest arbitrary: pre)
  case Nil
  show ?case by simp
next
  case (Cons x rest)
  show ?case
  proof (cases "ID x = ID s")
    case True
    then show ?thesis by simp
  next
    case False
    have a: "pre @ x # rest = (pre @ [x]) @ rest" by simp
    have b: "Suc (length pre) = length (pre @ [x])" by simp
    have "remove_loop s (pre @ x # rest) (length pre) (x # rest) w =
          remove_loop s (pre @ x # rest) (Suc (length pre)) rest w"
      using False by simp
    also have "\<dots> = remove_loop s ((pre @ [x]) @ rest) (length (pre @ [x])) rest w"
      by (simp only: a b)
    finally have c: "remove_loop s (pre @ x # rest) (length pre) (x # rest) w =
       remove_loop s ((pre @ [x]) @ rest) (length (pre @ [x])) rest w" .
    have tw: "takeWhile (\<lambda>x. ID x \<noteq> ID s) (x # rest) = x # takeWhile (\<lambda>x. ID x \<noteq> ID s) rest"
      and dw: "dropWhile (\<lambda>x. ID x \<noteq> ID s) (x # rest) = dropWhile (\<lambda>x. ID x \<noteq> ID s) rest"
      using False by simp_all
    show ?thesis
      unfolding c Cons.IH [of "pre @ [x]"] tw dw by (simp add: fun_upd_def)
  qed
qed

lemma Remove_absent:
  "gameSubscribers w (GameID s) = None \<Longrightarrow> RemoveGameSubscriber s w = Inr w"
  by (simp add: RemoveGameSubscriber_def)

lemma Remove_no_match:
  assumes "gameSubscribers w (GameID s) = Some subs" and "subs \<noteq> []"
    and "\<forall>x \<in> set subs. ID x \<noteq> ID s"
  shows "RemoveGameSubscriber s w = Inr w"
  using assms remove_loop_char [of s "[]" subs w]
  by (simp add: RemoveGameSubscriber_def SubscribersFor_def)

lemma Remove_match:
  assumes gs: "gameSubscribers w (GameID s) = Some (pre @ sub # after)"
    and pre: "\<forall>x \<in> set pre. ID x \<noteq> ID s" and sub: "ID sub = ID s"
  shows "RemoveGameSubscriber s w =
     (if chan_closed (chans w (Channel sub)) then Inl CloseOfClosedChannel
      else Inr (w\<lparr>gameSubscribers :=
                    (if pre @ after = [] then (gameSubscribers w)(GameID s := None)
                     else (gameSubscribers w)(GameID s \<mapsto> pre @ after)),
                  chans := (chans w)(Channel sub := (chans w (Channel sub))\<lparr>chan_closed := True\<rparr>)\<rparr>))"
proof -
  have tw: "takeWhile (\<lambda>x. ID x \<noteq> ID s) (pre @ sub # after) = pre"
    using pre sub by (simp add: takeWhile_append2)
  have dw: "dropWhile (\<lambda>x. ID x \<noteq> ID s) (pre @ sub # after) = sub # after"
    using pre sub by (simp add: dropWhile_append2)
  have loop: "remove_loop s (pre @ sub # after) 0 (pre @ sub # after) w =
      chan_close (Channel sub) (w\<lparr>gameSubscribers := (gameSubscribers w)(GameID s \<mapsto> pre @ after)\<rparr>)"
    using remove_loop_char [of s "[]" "pre @ sub # after" w] by (simp only: tw dw) simp
  show ?thesis
    by (simp add: RemoveGameSubscriber_def gs loop chan_close_def SubscribersFor_def)
qed

lemma registered_iff: "s \<in> registered w \<longleftrightarrow> (\<exists>k. s \<in> set (SubscribersFor w k))"
  by (simp add: registered_def)

lemma inv_worldD:
  assumes "inv_world w"
  shows "gameSubscribers w k \<noteq> Some []"
    and "distinct (SubscribersFor w k)"
    and "s \<in> set (SubscribersFor w k) \<Longrightarrow> GameID s = k"
    and "s \<in> set (SubscribersFor w k) \<Longrightarrow> Channel s < next_chan w"
    and "s \<in> set (SubscribersFor w k) \<Longrightarrow> \<not> chan_closed (chans w (Channel s))"
    and "inj_on Channel (registered w)"
    and "c < next_chan w \<Longrightarrow> chan_cap (chans w c) = 10"
    and "c < next_chan w \<Longrightarrow> length (chan_buf (chans w c)) \<le> 10"
  using assms unfolding inv_world_def by blast+

lemma inv_worldI:
  assumes "\<And>k. gameSubscribers w k \<noteq> Some []"
    and "\<And>k. distinct (SubscribersFor w k)"
    and "\<And>k s. s \<in> set (SubscribersFor w k) \<Longrightarrow> GameID s = k"
    and "\<And>k s. s \<in> set (SubscribersFor w k) \<Longrightarrow> Channel s < next_chan w"
    and "\<And>k s. s \<in> set (SubscribersFor w k) \<Longrightarrow> \<not> chan_closed (chans w (Channel s))"
    and "inj_on Channel (registered w)"
    and "\<And>c. c < next_chan w \<Longrightarrow> chan_cap (chans w c) = 10"
    and "\<And>c. c < next_chan w \<Longrightarrow> length (chan_buf (chans w c)) \<le> 10"
  shows "inv_world w"
  using assms unfolding inv_world_def by blast

lemma inv_shrink:
  assumes inv: "inv_world w"
    and gs: "gameSubscribers w k = Some (pre @ sub # after)"
    and w': "w' = w\<lparr>gameSubscribers :=
                    (if pre @ after = [] then (gameSubscribers w)(k := None)
                     else (gameSubscribers w)(k \<mapsto> pre @ after)),
                  chans := (chans w)(Channel sub := (chans w (Channel sub))\<lparr>chan_closed := True\<rparr>)\<rparr>"
  shows "inv_world w'"
proof -
  have old: "SubscribersFor w k = pre @ sub # after"
    using gs by (rule SubscribersFor_Some)
  have SF: "SubscribersFor w' k' = (if k' = k then pre @ after else SubscribersFor w k')" for k'
    by (simp add: w' SubscribersFor_def)
  have dist: "distinct (pre @ sub # after)"
    using inv_worldD(2) [OF inv, of k] old by simp
  have sub_reg: "sub \<in> registered w"
    unfolding registered_iff using old by (intro exI [of _ k]) simp
  have mem: "s \<in> set (SubscribersFor w k') \<and> s \<noteq> sub" if "s \<in> set (SubscribersFor w' k')" for s k'
  proof (cases "k' = k")
    case True
    with that SF dist old show ?thesis by auto
  next
    case False
    with that SF have in_old: "s \<in> set (SubscribersFor w k')" by simp
    have "GameID s = k'" using inv_worldD(3) [OF inv in_old] .
    moreover have "GameID sub = k" using inv_worldD(3) [OF inv, of sub k] old by simp
    ultimately show ?thesis using False in_old by auto
  qed
  have chan_ne: "Channel s \<noteq> Channel sub" if "s \<in> set (SubscribersFor w' k')" for s k'
  proof -
    from mem [OF that] have "s \<in> registered w" "s \<noteq> sub"
      unfolding registered_iff by auto
    with sub_reg inv_worldD(6) [OF inv] show ?thesis
      by (auto dest: inj_onD)
  qed
  have reg_sub: "registered w' \<subseteq> registered w"
  proof
    fix s assume "s \<in> registered w'"
    then obtain k' where "s \<in> set (SubscribersFor w' k')" unfolding registered_iff ..
    from mem [OF this] show "s \<in> registered w" unfolding registered_iff by blast
  qed
  show ?thesis
  proof (rule inv_worldI)
    show "gameSubscribers w' k' \<noteq> Some []" for k'
      using inv_worldD(1) [OF inv, of k'] by (simp add: w')
    show "distinct (SubscribersFor w' k')" for k'
      using inv_worldD(2) [OF inv, of k'] dist by (simp add: SF)
    show "GameID s = k'" if "s \<in> set (SubscribersFor w' k')" for s k'
      using mem [OF that] inv_worldD(3) [OF inv] by blast
    show "Channel s < next_chan w'" if "s \<in> set (SubscribersFor w' k')" for s k'
      using mem [OF that] inv_worldD(4) [OF inv, of s k'] by (simp add: w')
    show "\<not> chan_closed (chans w' (Channel s))" if "s \<in> set (SubscribersFor w' k')" for s k'
      using mem [OF that] chan_ne [OF that] inv_worldD(5) [OF inv, of s k'] by (simp add: w')
    show "inj_on Channel (registered w')"
      using inv_worldD(6) [OF inv] reg_sub by (rule inj_on_subset)
    show "chan_cap (chans w' c) = 10" if "c < next_chan w'" for c
      using that inv_worldD(7) [OF inv, of c] by (auto simp: w')
    show "length (chan_buf (chans w' c)) \<le> 10" if "c < next_chan w'" for c
      using that inv_worldD(8) [OF inv, of c] by (auto simp: w')
  qed
qed

lemma inv_Remove:
  assumes inv: "inv_world w"
  shows "\<exists>w'. RemoveGameSubscriber s w = Inr w' \<and> inv_world w'"
proof (cases "gameSubscribers w (GameID s)")
  case None
  then show ?thesis using inv by (simp add: Remove_absent)
next
  case (Some subs)
  have ne: "subs \<noteq> []" using inv_worldD(1) [OF inv, of "GameID s"] Some by auto
  show ?thesis
  proof (cases "\<exists>x \<in> set subs. ID x = ID s")
    case False
    then show ?thesis using inv Remove_no_match [OF Some ne] by auto
  next
    case True
    then obtain pre sub after where
      subs: "subs = pre @ sub # after" and sub: "ID sub = ID s" and pre: "\<forall>x \<in> set pre. ID x \<noteq> ID s"
      using split_list_first_prop [of subs "\<lambda>x. ID x = ID s"] by blast
    have gs: "gameSubscribers w (GameID s) = Some (pre @ sub # after)"
      using Some subs by simp
    have "sub \<in> set (SubscribersFor w (GameID s))"
      using SubscribersFor_Some [OF gs] by simp
    then have opn: "\<not> chan_closed (chans w (Channel sub))"
      by (rule inv_worldD(5) [OF inv])
    show ?thesis
      using Remove_match [OF gs pre sub] opn inv_shrink [OF inv gs refl] by simp
  qed
qed

lemma Create_fst:
  "fst (CreateGameSubscriber g ctx rnd w) =
     \<lparr>ID = generateSubscriberID rnd, GameID = g, Channel = next_chan w, Context = ctx\<rparr>"
  by (simp add: CreateGameSubscriber_def Let_def)

lemma Create_snd:
  "gameSubscribers (snd (CreateGameSubscriber g ctx rnd w)) =
     (gameSubscribers w)(g \<mapsto> SubscribersFor w g @ [fst (CreateGameSubscriber g ctx rnd w)])"
  "chans (snd (CreateGameSubscriber g ctx rnd w)) = (chans w)(next_chan w := make_chan 10)"
  "next_chan (snd (CreateGameSubscriber g ctx rnd w)) = Suc (next_chan w)"
  "ctx_done (snd (CreateGameSubscriber g ctx rnd w)) = ctx_done w"
  "spawned (snd (CreateGameSubscriber g ctx rnd w)) = spawned w"
  by (simp_all add: CreateGameSubscriber_def Let_def SubscribersFor_def)

lemma Create_SubscribersFor:
  "SubscribersFor (snd (CreateGameSubscriber g ctx rnd w)) k =
     (if k = g then SubscribersFor w g @ [fst (CreateGameSubscriber g ctx rnd w)]
      else SubscribersFor w k)"
  by (simp add: SubscribersFor_def Create_snd(1))


lemma inv_Create:
  assumes inv: "inv_world w"
  shows "inv_world (snd (CreateGameSubscriber g ctx rnd w))"
proof -
  let ?new = "fst (CreateGameSubscriber g ctx rnd w)"
  let ?w' = "snd (CreateGameSubscriber g ctx rnd w)"
  have new_ch: "Channel ?new = next_chan w" and new_game: "GameID ?new = g"
    by (simp_all add: Create_fst)
  have old_lt: "Channel s < next_chan w" if "s \<in> registered w" for s
    using that inv_worldD(4) [OF inv] unfolding registered_iff by blast
  have new_fresh: "?new \<notin> registered w"
  proof
    assume "?new \<in> registered w"
    from old_lt [OF this] show False by (simp add: new_ch)
  qed
  have mem: "s = ?new \<and> k = g \<or> s \<in> set (SubscribersFor w k)"
    if "s \<in> set (SubscribersFor ?w' k)" for s k
  proof (cases "k = g")
    case True
    with that show ?thesis by (auto simp: Create_SubscribersFor)
  next
    case False
    with that show ?thesis by (simp add: Create_SubscribersFor)
  qed
  have reg: "s = ?new \<or> s \<in> registered w" if "s \<in> registered ?w'" for s
  proof -
    from that obtain k where "s \<in> set (SubscribersFor ?w' k)" unfolding registered_iff ..
    from mem [OF this] show ?thesis unfolding registered_iff by blast
  qed
  show ?thesis
  proof (rule inv_worldI)
    show "gameSubscribers ?w' k \<noteq> Some []" for k
      using inv_worldD(1) [OF inv, of k] by (simp add: Create_snd(1))
    show "distinct (SubscribersFor ?w' k)" for k
    proof (cases "k = g")
      case True
      have "?new \<notin> set (SubscribersFor w g)"
        using new_fresh unfolding registered_iff by blast
      with inv_worldD(2) [OF inv, of g] True show ?thesis
        by (simp add: Create_SubscribersFor)
    next
      case False
      with inv_worldD(2) [OF inv, of k] show ?thesis
        by (simp add: Create_SubscribersFor)
    qed
    show "GameID s = k" if "s \<in> set (SubscribersFor ?w' k)" for s k
      using mem [OF that] inv_worldD(3) [OF inv, of s k] new_game by blast
    show "Channel s < next_chan ?w'" if "s \<in> set (SubscribersFor ?w' k)" for s k
    proof -
      from mem [OF that] have "Channel s \<le> next_chan w"
        using inv_worldD(4) [OF inv, of s k] new_ch by (metis less_imp_le order_refl)
      then show ?thesis by (simp add: Create_snd(3))
    qed
    show "\<not> chan_closed (chans ?w' (Channel s))" if "s \<in> set (SubscribersFor ?w' k)" for s k
    proof (cases "Channel s = next_chan w")
      case True
      then show ?thesis by (simp add: Create_snd(2) make_chan_def)
    next
      case False
      with mem [OF that] new_ch have "s \<in> set (SubscribersFor w k)" by metis
      from inv_worldD(5) [OF inv this] False show ?thesis by (simp add: Create_snd(2))
    qed
    show "inj_on Channel (registered ?w')"
    proof (rule inj_onI)
      fix a b assume a: "a \<in> registered ?w'" and b: "b \<in> registered ?w'"
        and eq: "Channel a = Channel b"
      show "a = b"
      proof (cases "a = ?new")
        case True
        show ?thesis
        proof (rule ccontr)
          assume "a \<noteq> b"
          with reg [OF b] True have "b \<in> registered w" by metis
          from old_lt [OF this] eq True new_ch show False by simp
        qed
      next
        case False
        with reg [OF a] have ra: "a \<in> registered w" by metis
        show ?thesis
        proof (cases "b = ?new")
          case True
          from old_lt [OF ra] eq True new_ch show ?thesis by simp
        next
          case False
          with reg [OF b] have "b \<in> registered w" by metis
          with ra eq inv_worldD(6) [OF inv] show ?thesis by (metis inj_onD)
        qed
      qed
    qed
    show "chan_cap (chans ?w' c) = 10" if "c < next_chan ?w'" for c
    proof (cases "c = next_chan w")
      case True
      then show ?thesis by (simp add: Create_snd(2) make_chan_def)
    next
      case False
      with that have "c < next_chan w" by (simp add: Create_snd(3))
      from inv_worldD(7) [OF inv this] False show ?thesis by (simp add: Create_snd(2))
    qed
    show "length (chan_buf (chans ?w' c)) \<le> 10" if "c < next_chan ?w'" for c
    proof (cases "c = next_chan w")
      case True
      then show ?thesis by (simp add: Create_snd(2) make_chan_def)
    next
      case False
      with that have "c < next_chan w" by (simp add: Create_snd(3))
      from inv_worldD(8) [OF inv this] False show ?thesis by (simp add: Create_snd(2))
    qed
  qed
qed

lemma inv_same_registry:
  assumes inv: "inv_world w"
    and gs: "gameSubscribers w1 = gameSubscribers w"
    and nx: "next_chan w1 = next_chan w"
    and cl: "\<And>c. chan_closed (chans w1 c) = chan_closed (chans w c)"
    and cp: "\<And>c. chan_cap (chans w1 c) = chan_cap (chans w c)"
    and bf: "\<And>c. c < next_chan w \<Longrightarrow> length (chan_buf (chans w1 c)) \<le> 10"
  shows "inv_world w1"
proof -
  have SF: "SubscribersFor w1 k = SubscribersFor w k" for k
    by (simp add: SubscribersFor_def gs)
  have reg: "registered w1 = registered w"
    by (simp add: registered_def SF)
  show ?thesis
  proof (rule inv_worldI)
    show "gameSubscribers w1 k \<noteq> Some []" for k
      using inv_worldD(1) [OF inv, of k] by (simp add: gs)
    show "distinct (SubscribersFor w1 k)" for k
      using inv_worldD(2) [OF inv, of k] by (simp add: SF)
    show "GameID s = k" if "s \<in> set (SubscribersFor w1 k)" for s k
      using that inv_worldD(3) [OF inv, of s k] by (simp add: SF)
    show "Channel s < next_chan w1" if "s \<in> set (SubscribersFor w1 k)" for s k
      using that inv_worldD(4) [OF inv, of s k] by (simp add: SF nx)
    show "\<not> chan_closed (chans w1 (Channel s))" if "s \<in> set (SubscribersFor w1 k)" for s k
      using that inv_worldD(5) [OF inv, of s k] by (simp add: SF cl)
    show "inj_on Channel (registered w1)"
      using inv_worldD(6) [OF inv] by (simp add: reg)
    show "chan_cap (chans w1 c) = 10" if "c < next_chan w1" for c
      using that inv_worldD(7) [OF inv, of c] by (simp add: nx cp)
    show "length (chan_buf (chans w1 c)) \<le> 10" if "c < next_chan w1" for c
      using that bf [of c] by (simp add: nx)
  qed
qed

lemma select_step_Inr:
  assumes st: "select_step s ev b w = Inr w1"
  shows "gameSubscribers w1 = gameSubscribers w"
    and "next_chan w1 = next_chan w"
    and "ctx_done w1 = ctx_done w"
    and "c \<noteq> Channel s \<Longrightarrow> chans w1 c = chans w c"
    and "chans w1 (Channel s) =
           (if select_outcome w s b = CaseSend
            then (chans w (Channel s))\<lparr>chan_buf := chan_buf (chans w (Channel s)) @ [ev]\<rparr>
            else chans w (Channel s))"
    and "spawned w1 = (if select_outcome w s b = CaseDone then spawned w @ [s] else spawned w)"
proof -
  consider (c_send) "select_outcome w s b = CaseSend"
    | (c_done) "select_outcome w s b = CaseDone"
    | (c_dflt) "select_outcome w s b = CaseDefault"
    by (cases "select_outcome w s b") simp_all
  then have "gameSubscribers w1 = gameSubscribers w \<and> next_chan w1 = next_chan w \<and>
      ctx_done w1 = ctx_done w \<and> (c \<noteq> Channel s \<longrightarrow> chans w1 c = chans w c) \<and>
      chans w1 (Channel s) =
           (if select_outcome w s b = CaseSend
            then (chans w (Channel s))\<lparr>chan_buf := chan_buf (chans w (Channel s)) @ [ev]\<rparr>
            else chans w (Channel s)) \<and>
      spawned w1 = (if select_outcome w s b = CaseDone then spawned w @ [s] else spawned w)"
  proof cases
    case c_send
    show ?thesis
    proof (cases "chan_closed (chans w (Channel s))")
      case True
      with st c_send show ?thesis by (simp add: select_step_def chan_send_def)
    next
      case False
      with st c_send have "w1 = w\<lparr>chans := (chans w)(Channel s := (chans w (Channel s))\<lparr>chan_buf := chan_buf (chans w (Channel s)) @ [ev]\<rparr>)\<rparr>"
        by (simp add: select_step_def chan_send_def)
      with c_send show ?thesis by simp
    qed
  next
    case c_done
    with st have "w1 = w\<lparr>spawned := spawned w @ [s]\<rparr>"
      by (simp add: select_step_def)
    with c_done show ?thesis by simp
  next
    case c_dflt
    with st have "w1 = w" by (simp add: select_step_def)
    with c_dflt show ?thesis by simp
  qed
  then show "gameSubscribers w1 = gameSubscribers w"
    and "next_chan w1 = next_chan w"
    and "ctx_done w1 = ctx_done w"
    and "c \<noteq> Channel s \<Longrightarrow> chans w1 c = chans w c"
    and "chans w1 (Channel s) =
           (if select_outcome w s b = CaseSend
            then (chans w (Channel s))\<lparr>chan_buf := chan_buf (chans w (Channel s)) @ [ev]\<rparr>
            else chans w (Channel s))"
    and "spawned w1 = (if select_outcome w s b = CaseDone then spawned w @ [s] else spawned w)"
    by blast+
qed

lemma select_step_open:
  assumes "\<not> chan_closed (chans w (Channel s))"
  shows "\<exists>w1. select_step s ev b w = Inr w1"
  using assms by (cases "select_outcome w s b") (simp_all add: select_step_def chan_send_def)

lemma select_outcome_cong:
  "chans w1 (Channel s) = chans w (Channel s) \<Longrightarrow> ctx_done w1 = ctx_done w \<Longrightarrow>
     select_outcome w1 s b = select_outcome w s b"
  by (simp add: select_outcome_def)

lemma scheduled_removals_cong:
  "\<forall>s \<in> set subs. chans w1 (Channel s) = chans w (Channel s) \<Longrightarrow> ctx_done w1 = ctx_done w \<Longrightarrow>
     scheduled_removals w1 pick i subs = scheduled_removals w pick i subs"
proof (induction subs arbitrary: i)
  case Nil
  show ?case by simp
next
  case (Cons s subs)
  have "select_outcome w1 s (pick i) = select_outcome w s (pick i)"
    using Cons.prems by (intro select_outcome_cong) simp_all
  moreover have "scheduled_removals w1 pick (Suc i) subs = scheduled_removals w pick (Suc i) subs"
    using Cons.prems by (intro Cons.IH) simp_all
  ultimately show ?case by simp
qed

lemma broadcast_loop_frame:
  assumes "broadcast_loop ev pick i subs w = Inr w'"
  shows "gameSubscribers w' = gameSubscribers w \<and> next_chan w' = next_chan w \<and>
         ctx_done w' = ctx_done w \<and> (\<forall>c. c \<notin> Channel ` set subs \<longrightarrow> chans w' c = chans w c)"
  using assms
proof (induction subs arbitrary: i w)
  case Nil
  then show ?case by simp
next
  case (Cons s subs)
  have "\<exists>w1. select_step s ev (pick i) w = Inr w1 \<and> broadcast_loop ev pick (Suc i) subs w1 = Inr w'"
    using Cons.prems by (cases "select_step s ev (pick i) w") simp_all
  then obtain w1 where
    st: "select_step s ev (pick i) w = Inr w1" and lp: "broadcast_loop ev pick (Suc i) subs w1 = Inr w'"
    by blast
  have fr: "gameSubscribers w1 = gameSubscribers w" "next_chan w1 = next_chan w" "ctx_done w1 = ctx_done w"
    using select_step_Inr(1-3) [OF st] by simp_all
  have "chans w' c = chans w c" if "c \<notin> Channel ` set (s # subs)" for c
  proof -
    from that have "c \<noteq> Channel s" "c \<notin> Channel ` set subs" by simp_all
    with Cons.IH [OF lp] select_step_Inr(4) [OF st, of c] show ?thesis by simp
  qed
  with Cons.IH [OF lp] fr show ?case by simp
qed

lemma select_step_closed_flag:
  assumes "select_step s ev b w = Inr w1"
  shows "chan_closed (chans w1 c) = chan_closed (chans w c)"
    and "chan_cap (chans w1 c) = chan_cap (chans w c)"
proof -
  show "chan_closed (chans w1 c) = chan_closed (chans w c)"
  proof (cases "c = Channel s")
    case True
    then show ?thesis using select_step_Inr(5) [OF assms] by simp
  next
    case False
    then show ?thesis using select_step_Inr(4) [OF assms] by simp
  qed
  show "chan_cap (chans w1 c) = chan_cap (chans w c)"
  proof (cases "c = Channel s")
    case True
    then show ?thesis using select_step_Inr(5) [OF assms] by simp
  next
    case False
    then show ?thesis using select_step_Inr(4) [OF assms] by simp
  qed
qed

lemma broadcast_loop_Cons:
  assumes "broadcast_loop ev pick i (s # subs) w = Inr w'"
  obtains w1 where "select_step s ev (pick i) w = Inr w1"
    and "broadcast_loop ev pick (Suc i) subs w1 = Inr w'"
proof (cases "select_step s ev (pick i) w")
  case (Inl p)
  with assms show ?thesis by simp
next
  case (Inr w1)
  with assms that show ?thesis by simp
qed

lemma broadcast_loop_open:
  assumes "\<forall>s \<in> set subs. \<not> chan_closed (chans w (Channel s))"
  shows "\<exists>w'. broadcast_loop ev pick i subs w = Inr w'"
  using assms
proof (induction subs arbitrary: i w)
  case Nil
  show ?case by simp
next
  case (Cons s subs)
  have "\<not> chan_closed (chans w (Channel s))" using Cons.prems by simp
  from select_step_open [OF this] obtain w1 where
    st: "select_step s ev (pick i) w = Inr w1" by blast
  have "\<forall>x \<in> set subs. \<not> chan_closed (chans w1 (Channel x))"
    using Cons.prems by (simp add: select_step_closed_flag(1) [OF st])
  from Cons.IH [OF this, of "Suc i"] st show ?case by simp
qed

lemma broadcast_loop_spawned:
  assumes "broadcast_loop ev pick i subs w = Inr w'" and "distinct (map Channel subs)"
  shows "spawned w' = spawned w @ scheduled_removals w pick i subs"
  using assms
proof (induction subs arbitrary: i w)
  case Nil
  then show ?case by simp
next
  case (Cons s subs)
  from Cons.prems(1) obtain w1 where
    st: "select_step s ev (pick i) w = Inr w1" and lp: "broadcast_loop ev pick (Suc i) subs w1 = Inr w'"
    by (rule broadcast_loop_Cons)
  have d: "distinct (map Channel subs)" and ns: "Channel s \<notin> Channel ` set subs"
    using Cons.prems(2) by simp_all
  have same: "\<forall>x \<in> set subs. chans w1 (Channel x) = chans w (Channel x)"
  proof
    fix x assume "x \<in> set subs"
    with ns have "Channel x \<noteq> Channel s" by (metis imageI)
    then show "chans w1 (Channel x) = chans w (Channel x)"
      by (rule select_step_Inr(4) [OF st])
  qed
  have "scheduled_removals w1 pick (Suc i) subs = scheduled_removals w pick (Suc i) subs"
    using same select_step_Inr(3) [OF st] by (rule scheduled_removals_cong)
  with Cons.IH [OF lp d] select_step_Inr(6) [OF st] show ?case by simp
qed

lemma broadcast_loop_chans:
  assumes "broadcast_loop ev pick i subs w = Inr w'" and "distinct (map Channel subs)"
    and "j < length subs"
  shows "chans w' (Channel (subs ! j)) =
           (if select_outcome w (subs ! j) (pick (i + j)) = CaseSend
            then (chans w (Channel (subs ! j)))\<lparr>chan_buf := chan_buf (chans w (Channel (subs ! j))) @ [ev]\<rparr>
            else chans w (Channel (subs ! j)))"
  using assms
proof (induction subs arbitrary: i w j)
  case Nil
  then show ?case by simp
next
  case (Cons s subs)
  from Cons.prems(1) obtain w1 where
    st: "select_step s ev (pick i) w = Inr w1" and lp: "broadcast_loop ev pick (Suc i) subs w1 = Inr w'"
    by (rule broadcast_loop_Cons)
  have d: "distinct (map Channel subs)" and ns: "Channel s \<notin> Channel ` set subs"
    using Cons.prems(2) by simp_all
  show ?case
  proof (cases j)
    case 0
    have "chans w' (Channel s) = chans w1 (Channel s)"
      using broadcast_loop_frame [OF lp] ns by simp
    with select_step_Inr(5) [OF st] 0 show ?thesis by simp
  next
    case (Suc j')
    with Cons.prems(3) have j': "j' < length subs" by simp
    then have "subs ! j' \<in> set subs" by simp
    with ns have ne: "Channel (subs ! j') \<noteq> Channel s" by (metis imageI)
    have c1: "chans w1 (Channel (subs ! j')) = chans w (Channel (subs ! j'))"
      using select_step_Inr(4) [OF st ne] .
    have o1: "select_outcome w1 (subs ! j') b = select_outcome w (subs ! j') b" for b
      using c1 select_step_Inr(3) [OF st] by (rule select_outcome_cong)
    from Cons.IH [OF lp d j'] show ?thesis by (simp add: Suc c1 o1)
  qed
qed

lemma personalized_loop_eq:
  "personalized_loop gameID game pick i subs w =
     broadcast_loop (game_status_event gameID game) pick i subs w"
proof (induction subs arbitrary: i w)
  case Nil
  show ?case by simp
next
  case (Cons s subs)
  show ?case
    by (cases "select_step s (game_status_event gameID game) (pick i) w") (simp_all add: Cons.IH)
qed

lemma Personalized_eq_Broadcast:
  "BroadcastPersonalizedGameStatus gameID game pick w =
     BroadcastGameEvent gameID (game_status_event gameID game) pick w"
  by (cases "gameSubscribers w gameID")
     (simp_all add: BroadcastPersonalizedGameStatus_def BroadcastGameEvent_def personalized_loop_eq)

lemma inv_select_step:
  assumes inv: "inv_world w" and st: "select_step s ev b w = Inr w1"
  shows "inv_world w1"
proof (rule inv_same_registry [OF inv])
  show "gameSubscribers w1 = gameSubscribers w" by (rule select_step_Inr(1) [OF st])
  show "next_chan w1 = next_chan w" by (rule select_step_Inr(2) [OF st])
  show "chan_closed (chans w1 c) = chan_closed (chans w c)" for c
    by (rule select_step_closed_flag(1) [OF st])
  show "chan_cap (chans w1 c) = chan_cap (chans w c)" for c
    by (rule select_step_closed_flag(2) [OF st])
  show "length (chan_buf (chans w1 c)) \<le> 10" if c: "c < next_chan w" for c
  proof (cases "c = Channel s \<and> select_outcome w s b = CaseSend")
    case True
    have "\<not> chan_closed (chans w (Channel s))"
    proof
      assume "chan_closed (chans w (Channel s))"
      with True st show False by (simp add: select_step_def chan_send_def)
    qed
    moreover have "send_ready (chans w (Channel s))"
      using True by (auto simp: select_outcome_def choose_case_def split: if_splits)
    ultimately have "length (chan_buf (chans w (Channel s))) < chan_cap (chans w (Channel s))"
      by (simp add: send_ready_def)
    with inv_worldD(7) [OF inv c] True have "length (chan_buf (chans w (Channel s))) < 10" by simp
    with True select_step_Inr(5) [OF st] show ?thesis by simp
  next
    case False
    have "chans w1 c = chans w c"
    proof (cases "c = Channel s")
      case True
      with False select_step_Inr(5) [OF st] show ?thesis by simp
    next
      case False
      then show ?thesis by (rule select_step_Inr(4) [OF st])
    qed
    with inv_worldD(8) [OF inv c] show ?thesis by simp
  qed
qed

lemma inv_broadcast_loop:
  assumes "inv_world w" and "broadcast_loop ev pick i subs w = Inr w'"
  shows "inv_world w'"
  using assms
proof (induction subs arbitrary: i w)
  case Nil
  then show ?case by simp
next
  case (Cons s subs)
  from Cons.prems(2) obtain w1 where
    st: "select_step s ev (pick i) w = Inr w1" and lp: "broadcast_loop ev pick (Suc i) subs w1 = Inr w'"
    by (rule broadcast_loop_Cons)
  from inv_select_step [OF Cons.prems(1) st] lp show ?case by (rule Cons.IH)
qed

lemma Broadcast_returns:
  assumes inv: "inv_world w"
  shows "\<exists>w'. BroadcastGameEvent g ev pick w = Inr w' \<and> inv_world w'"
proof (cases "gameSubscribers w g")
  case None
  with inv show ?thesis by (simp add: BroadcastGameEvent_def)
next
  case (Some subs)
  have "\<forall>s \<in> set subs. \<not> chan_closed (chans w (Channel s))"
    using inv_worldD(5) [OF inv, of _ g] SubscribersFor_Some [OF Some] by simp
  from broadcast_loop_open [OF this] obtain w' where
    lp: "broadcast_loop ev pick 0 subs w = Inr w'" by blast
  with inv_broadcast_loop [OF inv lp] Some show ?thesis
    by (simp add: BroadcastGameEvent_def)
qed

lemma inv_spawned_update: "inv_world (w\<lparr>spawned := x\<rparr>) = inv_world w"
  by (simp add: inv_world_def SubscribersFor_def registered_def)

lemma inv_cancel: "inv_world w \<Longrightarrow> inv_world (cancel c w)"
  by (simp add: inv_world_def SubscribersFor_def registered_def cancel_def)

lemma inv_chan_recv:
  assumes inv: "inv_world w"
  shows "inv_world (chan_recv c w)"
proof (rule inv_same_registry [OF inv])
  show "length (chan_buf (chans (chan_recv c w) c')) \<le> 10" if "c' < next_chan w" for c'
  proof (cases "c' = c")
    case True
    have "length (tl (chan_buf (chans w c))) \<le> length (chan_buf (chans w c))" by simp
    with inv_worldD(8) [OF inv that] True show ?thesis by (simp add: chan_recv_def)
  next
    case False
    with inv_worldD(8) [OF inv that] show ?thesis by (simp add: chan_recv_def)
  qed
qed (simp_all add: chan_recv_def)

lemma inv_step:
  assumes inv: "inv_world w"
  shows "\<exists>w'. step c w = Inr w' \<and> inv_world w'"
proof (cases c)
  case (Register g ctx rnd)
  with inv_Create [OF inv] show ?thesis by simp
next
  case (Deregister s)
  with inv_Remove [OF inv] show ?thesis by simp
next
  case (Broadcast g ev pick)
  with Broadcast_returns [OF inv] show ?thesis by simp
next
  case (BroadcastPersonalized g game pick)
  with Broadcast_returns [OF inv] show ?thesis by (simp add: Personalized_eq_Broadcast)
next
  case (RunSpawned i)
  have "inv_world (w\<lparr>spawned := take i (spawned w) @ drop (Suc i) (spawned w)\<rparr>)"
    using inv by (simp add: inv_spawned_update)
  from inv_Remove [OF this] RunSpawned inv show ?thesis by (simp add: run_spawned_def)
next
  case (Cancel x)
  with inv_cancel [OF inv] show ?thesis by simp
next
  case (Receive x)
  with inv_chan_recv [OF inv] show ?thesis by simp
qed

lemma inv_run:
  assumes "inv_world w"
  shows "\<exists>w'. run cs w = Inr w' \<and> inv_world w'"
  using assms
proof (induction cs arbitrary: w)
  case Nil
  then show ?case by simp
next
  case (Cons c cs)
  from inv_step [OF Cons.prems] obtain w1 where
    st: "step c w = Inr w1" and inv1: "inv_world w1" by blast
  from Cons.IH [OF inv1] st show ?case by simp
qed

lemma run_inv: "run cs init_world = Inr w \<Longrightarrow> inv_world w"
  using inv_run [OF inv_init, of cs] by simp


lemma inv_distinct_channels:
  assumes inv: "inv_world w"
  shows "distinct (map Channel (SubscribersFor w k))"
proof -
  have "set (SubscribersFor w k) \<subseteq> registered w"
    unfolding registered_def by blast
  with inv_worldD(6) [OF inv] have "inj_on Channel (set (SubscribersFor w k))"
    by (rule inj_on_subset)
  with inv_worldD(2) [OF inv, of k] show ?thesis by (simp add: distinct_map)
qed

lemma run_returns: "\<exists>w. run calls init_world = Inr w \<and> inv_world w"
  using inv_run [OF inv_init] .

lemma Remove_last_entry:
  assumes gs: "gameSubscribers w (GameID s) = Some [sub]" and sub: "ID sub = ID s"
    and opn: "\<not> chan_closed (chans w (Channel sub))"
  shows "RemoveGameSubscriber s w =
     Inr (w\<lparr>gameSubscribers := (gameSubscribers w)(GameID s := None),
            chans := (chans w)(Channel sub := (chans w (Channel sub))\<lparr>chan_closed := True\<rparr>)\<rparr>)"
  using Remove_match [of w s "[]" sub "[]"] gs sub opn by simp



lemma Broadcast_other_channels:
  assumes "BroadcastGameEvent A ev pick w = Inr w'" and "c \<notin> Channel ` set (SubscribersFor w A)"
  shows "chans w' c = chans w c"
proof (cases "gameSubscribers w A")
  case None
  with assms show ?thesis by (simp add: BroadcastGameEvent_def)
next
  case (Some subs)
  with assms(1) have lp: "broadcast_loop ev pick 0 subs w = Inr w'"
    by (simp add: BroadcastGameEvent_def)
  from broadcast_loop_frame [OF lp] assms(2) SubscribersFor_Some [OF Some] show ?thesis by simp
qed

lemma outcome_send_iff:
  assumes "\<not> chan_closed (chans w (Channel s))"
  shows "select_outcome w s b = CaseSend \<longleftrightarrow>
     length (chan_buf (chans w (Channel s))) < chan_cap (chans w (Channel s)) \<and>
     (ctx_done w (Context s) \<longrightarrow> b)"
  using assms by (simp add: select_outcome_def choose_case_def send_ready_def)

lemma outcome_done_iff:
  assumes "\<not> chan_closed (chans w (Channel s))"
  shows "select_outcome w s b = CaseDone \<longleftrightarrow>
     ctx_done w (Context s) \<and>
     (length (chan_buf (chans w (Channel s))) < chan_cap (chans w (Channel s)) \<longrightarrow> \<not> b)"
  using assms by (simp add: select_outcome_def choose_case_def send_ready_def)

lemma outcome_default_iff:
  assumes "\<not> chan_closed (chans w (Channel s))"
  shows "select_outcome w s b = CaseDefault \<longleftrightarrow>
     \<not> length (chan_buf (chans w (Channel s))) < chan_cap (chans w (Channel s)) \<and>
     \<not> ctx_done w (Context s)"
  using assms by (simp add: select_outcome_def choose_case_def send_ready_def)

lemma Broadcast_chans:
  assumes inv: "inv_world w" and j: "j < length (SubscribersFor w g)"
    and b: "BroadcastGameEvent g ev pick w = Inr w'"
  shows "chans w' (Channel (SubscribersFor w g ! j)) =
           (if select_outcome w (SubscribersFor w g ! j) (pick j) = CaseSend
            then (chans w (Channel (SubscribersFor w g ! j)))
                   \<lparr>chan_buf := chan_buf (chans w (Channel (SubscribersFor w g ! j))) @ [ev]\<rparr>
            else chans w (Channel (SubscribersFor w g ! j)))"
proof (cases "gameSubscribers w g")
  case None
  with j show ?thesis by (simp add: SubscribersFor_def)
next
  case (Some subs)
  have sf: "SubscribersFor w g = subs" using Some by (rule SubscribersFor_Some)
  from b Some have lp: "broadcast_loop ev pick 0 subs w = Inr w'"
    by (simp add: BroadcastGameEvent_def)
  have d: "distinct (map Channel subs)" using inv_distinct_channels [OF inv, of g] sf by simp
  from j sf have j': "j < length subs" by simp
  from broadcast_loop_chans [OF lp d j'] show ?thesis by (simp add: sf)
qed

lemma Broadcast_single_cancelled:
  assumes gs: "gameSubscribers w g = Some [s]"
    and out: "select_outcome w s (pick 0) = CaseDone"
  shows "BroadcastGameEvent g ev pick w = Inr (w\<lparr>spawned := spawned w @ [s]\<rparr>)"
  by (simp add: BroadcastGameEvent_def gs select_step_def out)

lemma run_spawned_last:
  "run_spawned (length (spawned w)) (w\<lparr>spawned := spawned w @ [s]\<rparr>) = RemoveGameSubscriber s w"
  by (simp add: run_spawned_def)

lemma scheduled_mem:
  "x \<in> set (scheduled_removals w pick i subs) \<longleftrightarrow>
     (\<exists>j < length subs. subs ! j = x \<and> select_outcome w x (pick (i + j)) = CaseDone)"
proof (induction subs arbitrary: i)
  case Nil
  show ?case by simp
next
  case (Cons s subs)
  have "(\<exists>j < length (s # subs). (s # subs) ! j = x \<and> select_outcome w x (pick (i + j)) = CaseDone) \<longleftrightarrow>
        (s = x \<and> select_outcome w x (pick i) = CaseDone) \<or>
        (\<exists>j < length subs. subs ! j = x \<and> select_outcome w x (pick (Suc i + j)) = CaseDone)"
    (is "?L \<longleftrightarrow> ?A \<or> ?B")
  proof
    assume ?L
    then obtain j where j: "j < length (s # subs)" "(s # subs) ! j = x"
      "select_outcome w x (pick (i + j)) = CaseDone" by blast
    show "?A \<or> ?B"
    proof (cases j)
      case 0
      with j show ?thesis by simp
    next
      case (Suc j')
      with j have "j' < length subs \<and> subs ! j' = x \<and> select_outcome w x (pick (Suc i + j')) = CaseDone"
        by simp
      then show ?thesis by blast
    qed
  next
    assume "?A \<or> ?B"
    then show ?L
    proof
      assume ?A
      then have "0 < length (s # subs) \<and> (s # subs) ! 0 = x \<and> select_outcome w x (pick (i + 0)) = CaseDone"
        by simp
      then show ?L by blast
    next
      assume ?B
      then obtain j where "j < length subs" "subs ! j = x"
        "select_outcome w x (pick (Suc i + j)) = CaseDone" by blast
      then have "Suc j < length (s # subs) \<and> (s # subs) ! Suc j = x \<and>
          select_outcome w x (pick (i + Suc j)) = CaseDone" by simp
      then show ?L by blast
    qed
  qed
  then show ?case using Cons.IH [of "Suc i"] by auto
qed

lemma scheduled_nth:
  assumes d: "distinct subs" and j: "j < length subs"
  shows "subs ! j \<in> set (scheduled_removals w pick i subs) \<longleftrightarrow>
         select_outcome w (subs ! j) (pick (i + j)) = CaseDone"
proof
  assume "subs ! j \<in> set (scheduled_removals w pick i subs)"
  then obtain j' where j': "j' < length subs" "subs ! j' = subs ! j"
    "select_outcome w (subs ! j) (pick (i + j')) = CaseDone"
    unfolding scheduled_mem by blast
  with d j have "j' = j" by (simp add: nth_eq_iff_index_eq)
  with j' show "select_outcome w (subs ! j) (pick (i + j)) = CaseDone" by simp
next
  assume "select_outcome w (subs ! j) (pick (i + j)) = CaseDone"
  with j show "subs ! j \<in> set (scheduled_removals w pick i subs)"
    unfolding scheduled_mem by blast
qed

section \<open>The claims\<close>

subsection \<open>Evaluation of the scenario worlds\<close>

lemma S1_fields: "GameID S1 = ''g1''" "Channel S1 = 0" "Context S1 = 0"
  by (simp_all add: S1_def Create_fst init_world_def)

lemma world_g1_fields:
  "gameSubscribers world_g1 = [''g1'' \<mapsto> [S1]]"
  "chans world_g1 0 = make_chan 10"
  "next_chan world_g1 = 1"
  "ctx_done world_g1 = (\<lambda>_. False)"
  "spawned world_g1 = []"
  by (simp_all add: world_g1_def S1_def Create_snd SubscribersFor_def init_world_def)

lemma world_g1_run: "run [Register ''g1'' 0 [1, 2, 3, 4, 5, 6, 7, 8]] init_world = Inr world_g1"
  by (simp add: world_g1_def)

lemma S2_fields: "GameID S2 = ''g2''" "Channel S2 = Suc 0" "Context S2 = Suc 0"
  by (simp_all add: S2_def Create_fst world_g1_fields)

lemma world_g1_g2_fields:
  "gameSubscribers world_g1_g2 = [''g1'' \<mapsto> [S1], ''g2'' \<mapsto> [S2]]"
  "chans world_g1_g2 0 = make_chan 10"
  "chans world_g1_g2 (Suc 0) = make_chan 10"
  "next_chan world_g1_g2 = 2"
  "ctx_done world_g1_g2 = (\<lambda>_. False)"
  "spawned world_g1_g2 = []"
  by (simp_all add: world_g1_g2_def S2_def Create_snd SubscribersFor_def world_g1_fields)

lemma world_g1_g2_run:
  "run [Register ''g1'' 0 [1, 2, 3, 4, 5, 6, 7, 8], Register ''g2'' 1 [9, 10, 11, 12, 13, 14, 15, 16]]
     init_world = Inr world_g1_g2"
  by (simp add: world_g1_g2_def world_g1_def)

lemma world_queued_fields:
  "gameSubscribers (world_queued q) = [''g1'' \<mapsto> [S1]]"
  "chans (world_queued q) 0 = \<lparr>chan_buf = q, chan_cap = 10, chan_closed = False\<rparr>"
  "ctx_done (world_queued q) = (\<lambda>_. False)"
  "spawned (world_queued q) = []"
  by (simp_all add: world_queued_def world_g1_fields make_chan_def)

lemma world_queued_Nil: "world_queued [] = world_g1"
proof -
  have "(chans world_g1)(0 := (make_chan 10)\<lparr>chan_buf := []\<rparr>) = chans world_g1"
    by (rule ext) (simp add: world_g1_fields make_chan_def)
  then show ?thesis by (simp add: world_queued_def)
qed

lemma world_queued_enqueue:
  assumes "length q < 10"
  shows "BroadcastGameEvent ''g1'' ev pick (world_queued q) = Inr (world_queued (q @ [ev]))"
  using assms
  by (simp add: BroadcastGameEvent_def world_queued_fields select_step_def select_outcome_def
      S1_fields send_ready_def choose_case_def chan_send_def)
     (simp add: world_queued_def make_chan_def)

lemma scenario4_run:
  "run scenario4_calls init_world = Inr (world_queued (map numbered_event [0, 1, 2, 3, 4, 5, 6, 7, 8, 9]))"
proof -
  have "run scenario4_calls init_world =
      run (map (\<lambda>n. Broadcast ''g1'' (numbered_event n) prefer_send) [0, 1, 2, 3, 4, 5, 6, 7, 8, 9])
        (world_queued [])"
    by (simp add: scenario4_calls_def world_queued_Nil world_g1_def)
  also have "\<dots> = Inr (world_queued (map numbered_event [0, 1, 2, 3, 4, 5, 6, 7, 8, 9]))"
    by (simp add: world_queued_enqueue)
  finally show ?thesis .
qed

lemma world_g1_cancelled_fields:
  "gameSubscribers world_g1_cancelled = [''g1'' \<mapsto> [S1]]"
  "chans world_g1_cancelled 0 = make_chan 10"
  "ctx_done world_g1_cancelled 0 = True"
  "spawned world_g1_cancelled = []"
  by (simp_all add: world_g1_cancelled_def cancel_def world_g1_fields)

lemma world_g1_cancelled_run:
  "run [Register ''g1'' 0 [1, 2, 3, 4, 5, 6, 7, 8], Cancel 0] init_world = Inr world_g1_cancelled"
  by (simp add: world_g1_cancelled_def world_g1_def)

lemma broadcast_cancelled_send:
  "BroadcastGameEvent ''g1'' move_event prefer_send world_g1_cancelled = Inr world_g1_delivered"
  by (simp add: BroadcastGameEvent_def world_g1_cancelled_fields select_step_def select_outcome_def
      S1_fields send_ready_def make_chan_def choose_case_def prefer_send_def chan_send_def
      world_g1_delivered_def)

lemma broadcast_g1_send:
  "BroadcastGameEvent ''g1'' ev prefer_send world_g1 =
     Inr (world_g1\<lparr>chans := (chans world_g1)(0 := (make_chan 10)\<lparr>chan_buf := [ev]\<rparr>)\<rparr>)"
  by (simp add: BroadcastGameEvent_def world_g1_fields select_step_def select_outcome_def
      S1_fields send_ready_def make_chan_def choose_case_def prefer_send_def chan_send_def)










subsection \<open>The claims, one by one\<close>

text \<open>Claim C1 as stated fails in its last sentence. With \<open>S1\<close> cancelled and its
  channel empty, the \<^verbatim>\<open>select\<close> may take the send case: the event is delivered to a
  subscriber whose cancellation signal has fired.\<close>

theorem cancelled_subscriber_gets_event_counterexample:
  "SubscribersFor world_g1_cancelled ''g1'' = [S1] \<and>
   ctx_done world_g1_cancelled (Context S1) \<and>
   BroadcastGameEvent ''g1'' move_event prefer_send world_g1_cancelled = Inr world_g1_delivered \<and>
   chan_buf (chans world_g1_delivered (Channel S1)) = chan_buf (chans world_g1_cancelled (Channel S1)) @ [move_event]"
proof (intro conjI)
  show "SubscribersFor world_g1_cancelled ''g1'' = [S1]"
    by (simp add: SubscribersFor_def world_g1_cancelled_fields)
  show "ctx_done world_g1_cancelled (Context S1)"
    by (simp add: world_g1_cancelled_fields S1_fields)
  show "BroadcastGameEvent ''g1'' move_event prefer_send world_g1_cancelled = Inr world_g1_delivered"
    by (rule broadcast_cancelled_send)
  show "chan_buf (chans world_g1_delivered (Channel S1)) =
      chan_buf (chans world_g1_cancelled (Channel S1)) @ [move_event]"
    by (simp add: world_g1_delivered_def S1_fields world_g1_cancelled_fields make_chan_def)
qed

text \<open>Claim C1, amended. In every reachable world a broadcast returns normally, and for
  the subscriber at every position \<open>j\<close> of the session's slice exactly one of the three
  cases of the \<^verbatim>\<open>select\<close> is taken (\<open>select_outcome\<close> is one of three constructors):
  the send case only with free capacity, and then the event is appended to the queue and
  no removal is scheduled; the cancellation case only when the signal has fired, and then
  the queue is untouched and the removal is scheduled; the default case only when the
  queue is full and the signal has not fired, and then nothing happens. A fired signal
  forces the cancellation case when the queue is full; with free capacity the runtime's
  pick decides between delivery and cancellation.\<close>

theorem broadcast_one_outcome_per_subscriber:
  "\<exists>w. run calls init_world = Inr w \<and>
     (\<exists>w'. BroadcastGameEvent g ev pick w = Inr w' \<and>
        spawned w' = spawned w @ scheduled_removals w pick 0 (SubscribersFor w g) \<and>
        (\<forall>j < length (SubscribersFor w g).
           let s = SubscribersFor w g ! j;
               ch = chans w (Channel s);
               ch' = chans w' (Channel s);
               out = select_outcome w s (pick j);
               scheduled = (s \<in> set (scheduled_removals w pick 0 (SubscribersFor w g)))
           in (out = CaseSend \<or> out = CaseDone \<or> out = CaseDefault) \<and>
              (out = CaseSend \<longrightarrow>
                 length (chan_buf ch) < chan_cap ch \<and>
                 ch' = ch\<lparr>chan_buf := chan_buf ch @ [ev]\<rparr> \<and> \<not> scheduled) \<and>
              (out = CaseDone \<longrightarrow> ctx_done w (Context s) \<and> ch' = ch \<and> scheduled) \<and>
              (out = CaseDefault \<longrightarrow>
                 length (chan_buf ch) = chan_cap ch \<and> \<not> ctx_done w (Context s) \<and>
                 ch' = ch \<and> \<not> scheduled) \<and>
              (ctx_done w (Context s) \<and> length (chan_buf ch) = chan_cap ch \<longrightarrow> out = CaseDone) \<and>
              (ctx_done w (Context s) \<and> length (chan_buf ch) < chan_cap ch \<longrightarrow>
                 out = (if pick j then CaseSend else CaseDone)) \<and>
              (\<not> ctx_done w (Context s) \<and> length (chan_buf ch) < chan_cap ch \<longrightarrow> out = CaseSend)))"
proof -
  from run_returns obtain w where r: "run calls init_world = Inr w" and inv: "inv_world w"
    by blast
  from Broadcast_returns [OF inv] obtain w' where b: "BroadcastGameEvent g ev pick w = Inr w'"
    by blast
  let ?subs = "SubscribersFor w g"
  let ?sched = "scheduled_removals w pick 0 ?subs"
  have sp: "spawned w' = spawned w @ ?sched"
  proof (cases "gameSubscribers w g")
    case None
    with b show ?thesis by (simp add: BroadcastGameEvent_def SubscribersFor_def)
  next
    case (Some subs)
    with b have lp: "broadcast_loop ev pick 0 subs w = Inr w'" by (simp add: BroadcastGameEvent_def)
    have sf: "?subs = subs" using Some by (rule SubscribersFor_Some)
    have "distinct (map Channel subs)" using inv_distinct_channels [OF inv, of g] sf by simp
    from broadcast_loop_spawned [OF lp this] sf show ?thesis by simp
  qed
  have per: "(select_outcome w (?subs ! j) (pick j) = CaseSend \<or>
               select_outcome w (?subs ! j) (pick j) = CaseDone \<or>
               select_outcome w (?subs ! j) (pick j) = CaseDefault) \<and>
              (select_outcome w (?subs ! j) (pick j) = CaseSend \<longrightarrow>
                 length (chan_buf (chans w (Channel (?subs ! j)))) < chan_cap (chans w (Channel (?subs ! j))) \<and>
                 chans w' (Channel (?subs ! j)) = (chans w (Channel (?subs ! j)))
                    \<lparr>chan_buf := chan_buf (chans w (Channel (?subs ! j))) @ [ev]\<rparr> \<and>
                 ?subs ! j \<notin> set ?sched) \<and>
              (select_outcome w (?subs ! j) (pick j) = CaseDone \<longrightarrow>
                 ctx_done w (Context (?subs ! j)) \<and>
                 chans w' (Channel (?subs ! j)) = chans w (Channel (?subs ! j)) \<and>
                 ?subs ! j \<in> set ?sched) \<and>
              (select_outcome w (?subs ! j) (pick j) = CaseDefault \<longrightarrow>
                 length (chan_buf (chans w (Channel (?subs ! j)))) = chan_cap (chans w (Channel (?subs ! j))) \<and>
                 \<not> ctx_done w (Context (?subs ! j)) \<and>
                 chans w' (Channel (?subs ! j)) = chans w (Channel (?subs ! j)) \<and>
                 ?subs ! j \<notin> set ?sched) \<and>
              (ctx_done w (Context (?subs ! j)) \<and>
               length (chan_buf (chans w (Channel (?subs ! j)))) = chan_cap (chans w (Channel (?subs ! j)))
                 \<longrightarrow> select_outcome w (?subs ! j) (pick j) = CaseDone) \<and>
              (ctx_done w (Context (?subs ! j)) \<and>
               length (chan_buf (chans w (Channel (?subs ! j)))) < chan_cap (chans w (Channel (?subs ! j)))
                 \<longrightarrow> select_outcome w (?subs ! j) (pick j) = (if pick j then CaseSend else CaseDone)) \<and>
              (\<not> ctx_done w (Context (?subs ! j)) \<and>
               length (chan_buf (chans w (Channel (?subs ! j)))) < chan_cap (chans w (Channel (?subs ! j)))
                 \<longrightarrow> select_outcome w (?subs ! j) (pick j) = CaseSend)"
    if j: "j < length ?subs" for j
  proof -
    let ?s = "?subs ! j"
    have mem: "?s \<in> set ?subs" using j by simp
    have opn: "\<not> chan_closed (chans w (Channel ?s))" using mem by (rule inv_worldD(5) [OF inv])
    have cap: "chan_cap (chans w (Channel ?s)) = 10"
      using inv_worldD(4) [OF inv mem] inv_worldD(7) [OF inv] by blast
    have len: "length (chan_buf (chans w (Channel ?s))) \<le> 10"
      using inv_worldD(4) [OF inv mem] inv_worldD(8) [OF inv] by blast
    have sch: "?s \<in> set ?sched \<longleftrightarrow> select_outcome w ?s (pick j) = CaseDone"
      using scheduled_nth [OF inv_worldD(2) [OF inv, of g] j, of w pick 0] by simp
    note ch = Broadcast_chans [OF inv j b]
    note s_iff = outcome_send_iff [OF opn, of "pick j"]
    note d_iff = outcome_done_iff [OF opn, of "pick j"]
    note f_iff = outcome_default_iff [OF opn, of "pick j"]
    have c1: "select_outcome w ?s (pick j) = CaseSend \<longrightarrow>
                 length (chan_buf (chans w (Channel ?s))) < chan_cap (chans w (Channel ?s)) \<and>
                 chans w' (Channel ?s) = (chans w (Channel ?s))
                    \<lparr>chan_buf := chan_buf (chans w (Channel ?s)) @ [ev]\<rparr> \<and>
                 ?s \<notin> set ?sched"
    proof
      assume out: "select_outcome w ?s (pick j) = CaseSend"
      from out s_iff have "length (chan_buf (chans w (Channel ?s))) < chan_cap (chans w (Channel ?s))"
        by blast
      moreover from ch out have "chans w' (Channel ?s) = (chans w (Channel ?s))
                    \<lparr>chan_buf := chan_buf (chans w (Channel ?s)) @ [ev]\<rparr>" by simp
      moreover from out sch have "?s \<notin> set ?sched" by simp
      ultimately show "length (chan_buf (chans w (Channel ?s))) < chan_cap (chans w (Channel ?s)) \<and>
                 chans w' (Channel ?s) = (chans w (Channel ?s))
                    \<lparr>chan_buf := chan_buf (chans w (Channel ?s)) @ [ev]\<rparr> \<and>
                 ?s \<notin> set ?sched" by blast
    qed
    have c2: "select_outcome w ?s (pick j) = CaseDone \<longrightarrow>
                 ctx_done w (Context ?s) \<and> chans w' (Channel ?s) = chans w (Channel ?s) \<and>
                 ?s \<in> set ?sched"
    proof
      assume out: "select_outcome w ?s (pick j) = CaseDone"
      from out d_iff have "ctx_done w (Context ?s)" by blast
      moreover from ch out have "chans w' (Channel ?s) = chans w (Channel ?s)" by simp
      moreover from out sch have "?s \<in> set ?sched" by simp
      ultimately show "ctx_done w (Context ?s) \<and> chans w' (Channel ?s) = chans w (Channel ?s) \<and>
                 ?s \<in> set ?sched" by blast
    qed
    have c3: "select_outcome w ?s (pick j) = CaseDefault \<longrightarrow>
                 length (chan_buf (chans w (Channel ?s))) = chan_cap (chans w (Channel ?s)) \<and>
                 \<not> ctx_done w (Context ?s) \<and> chans w' (Channel ?s) = chans w (Channel ?s) \<and>
                 ?s \<notin> set ?sched"
    proof
      assume out: "select_outcome w ?s (pick j) = CaseDefault"
      from out f_iff have nf: "\<not> length (chan_buf (chans w (Channel ?s))) < chan_cap (chans w (Channel ?s))"
        and nd: "\<not> ctx_done w (Context ?s)" by blast+
      from nf cap len have "length (chan_buf (chans w (Channel ?s))) = chan_cap (chans w (Channel ?s))"
        by simp
      moreover from ch out have "chans w' (Channel ?s) = chans w (Channel ?s)" by simp
      moreover from out sch have "?s \<notin> set ?sched" by simp
      ultimately show "length (chan_buf (chans w (Channel ?s))) = chan_cap (chans w (Channel ?s)) \<and>
                 \<not> ctx_done w (Context ?s) \<and> chans w' (Channel ?s) = chans w (Channel ?s) \<and>
                 ?s \<notin> set ?sched" using nd by blast
    qed
    have c4: "ctx_done w (Context ?s) \<and>
               length (chan_buf (chans w (Channel ?s))) = chan_cap (chans w (Channel ?s))
                 \<longrightarrow> select_outcome w ?s (pick j) = CaseDone"
      using d_iff by simp
    have c5: "ctx_done w (Context ?s) \<and>
               length (chan_buf (chans w (Channel ?s))) < chan_cap (chans w (Channel ?s))
                 \<longrightarrow> select_outcome w ?s (pick j) = (if pick j then CaseSend else CaseDone)"
    proof (cases "pick j")
      case True
      with s_iff show ?thesis by simp
    next
      case False
      with d_iff show ?thesis by simp
    qed
    have c6: "\<not> ctx_done w (Context ?s) \<and>
               length (chan_buf (chans w (Channel ?s))) < chan_cap (chans w (Channel ?s))
                 \<longrightarrow> select_outcome w ?s (pick j) = CaseSend"
      using s_iff by simp
    have c0: "select_outcome w ?s (pick j) = CaseSend \<or> select_outcome w ?s (pick j) = CaseDone \<or>
        select_outcome w ?s (pick j) = CaseDefault"
      by (cases "select_outcome w ?s (pick j)") simp_all
    from c0 c1 c2 c3 c4 c5 c6 show ?thesis by blast
  qed
  from r b sp per show ?thesis unfolding Let_def by blast
qed

theorem broadcast_one_outcome_per_subscriber_witness:
  "run [Register ''g1'' 0 [1, 2, 3, 4, 5, 6, 7, 8], Cancel 0] init_world = Inr world_g1_cancelled \<and>
   0 < length (SubscribersFor world_g1_cancelled ''g1'') \<and>
   SubscribersFor world_g1_cancelled ''g1'' ! 0 = S1 \<and>
   select_outcome world_g1_cancelled S1 (prefer_done 0) = CaseDone \<and>
   ctx_done world_g1_cancelled (Context S1) \<and>
   length (chan_buf (chans world_g1_cancelled (Channel S1))) < chan_cap (chans world_g1_cancelled (Channel S1)) \<and>
   (\<exists>w'. BroadcastGameEvent ''g1'' move_event prefer_done world_g1_cancelled = Inr w' \<and>
      spawned w' = [S1] \<and>
      chans w' (Channel S1) = chans world_g1_cancelled (Channel S1))"
proof -
  let ?W = world_g1_cancelled
  have sf: "SubscribersFor ?W ''g1'' = [S1]"
    by (simp add: SubscribersFor_def world_g1_cancelled_fields)
  have out: "select_outcome ?W S1 (prefer_done 0) = CaseDone"
    by (simp add: select_outcome_def choose_case_def prefer_done_def S1_fields
        world_g1_cancelled_fields)
  have dn: "ctx_done ?W (Context S1)" by (simp add: S1_fields world_g1_cancelled_fields)
  have room: "length (chan_buf (chans ?W (Channel S1))) < chan_cap (chans ?W (Channel S1))"
    by (simp add: S1_fields world_g1_cancelled_fields make_chan_def)
  from broadcast_one_outcome_per_subscriber
    [of "[Register ''g1'' 0 [1, 2, 3, 4, 5, 6, 7, 8], Cancel 0]" "''g1''" move_event prefer_done]
  obtain w w' :: "(nat, nat) world"
    where r: "run [Register ''g1'' 0 [1, 2, 3, 4, 5, 6, 7, 8], Cancel 0] init_world = Inr w"
    and b: "BroadcastGameEvent ''g1'' move_event prefer_done w = Inr w'"
    and sp: "spawned w' = spawned w @ scheduled_removals w prefer_done 0 (SubscribersFor w ''g1'')"
    and p: "\<forall>j < length (SubscribersFor w ''g1'').
             select_outcome w (SubscribersFor w ''g1'' ! j) (prefer_done j) = CaseDone \<longrightarrow>
             ctx_done w (Context (SubscribersFor w ''g1'' ! j)) \<and>
             chans w' (Channel (SubscribersFor w ''g1'' ! j)) = chans w (Channel (SubscribersFor w ''g1'' ! j)) \<and>
             SubscribersFor w ''g1'' ! j \<in> set (scheduled_removals w prefer_done 0 (SubscribersFor w ''g1''))"
    unfolding Let_def by blast
  from r have w: "w = ?W" by (simp only: world_g1_cancelled_run sum.inject)
  from p w sf out have ch: "chans w' (Channel S1) = chans ?W (Channel S1)" by simp
  have "scheduled_removals ?W prefer_done 0 [S1] = [S1]" using out by simp
  with sp w sf have sp': "spawned w' = [S1]" by (simp add: world_g1_cancelled_fields)
  from b w have b': "BroadcastGameEvent ''g1'' move_event prefer_done ?W = Inr w'" by simp
  show ?thesis
  proof (intro conjI)
    show "run [Register ''g1'' 0 [1, 2, 3, 4, 5, 6, 7, 8], Cancel 0] init_world = Inr ?W"
      by (rule world_g1_cancelled_run)
    show "0 < length (SubscribersFor ?W ''g1'')" by (simp add: sf)
    show "SubscribersFor ?W ''g1'' ! 0 = S1" by (simp add: sf)
    show "select_outcome ?W S1 (prefer_done 0) = CaseDone" by (rule out)
    show "ctx_done ?W (Context S1)" by (rule dn)
    show "length (chan_buf (chans ?W (Channel S1))) < chan_cap (chans ?W (Channel S1))" by (rule room)
    show "\<exists>w'. BroadcastGameEvent ''g1'' move_event prefer_done ?W = Inr w' \<and> spawned w' = [S1] \<and>
      chans w' (Channel S1) = chans ?W (Channel S1)"
      using b' sp' ch by blast
  qed
qed

text \<open>Claim C2. \<^verbatim>\<open>CreateGameSubscriber\<close> allocates an empty open channel of capacity 10;
  in every reachable world every registered subscriber's channel (indeed every allocated
  channel) has capacity 10 and holds at most 10 events; and when a subscriber's channel
  holds 10 events, a broadcast to its session returns normally and leaves that channel as
  it was. Scenario 4 is the instance checked after the theorem: after ten unconsumed
  broadcasts the eleventh is dropped.\<close>

theorem queue_never_exceeds_capacity:
  "\<exists>w. run calls init_world = Inr w \<and>
     chans (snd (CreateGameSubscriber g ctx rnd w)) (Channel (fst (CreateGameSubscriber g ctx rnd w)))
       = \<lparr>chan_buf = [], chan_cap = 10, chan_closed = False\<rparr> \<and>
     (\<forall>s \<in> registered w. chan_cap (chans w (Channel s)) = 10 \<and>
        length (chan_buf (chans w (Channel s))) \<le> 10) \<and>
     (\<forall>c < next_chan w. chan_cap (chans w c) = 10 \<and> length (chan_buf (chans w c)) \<le> 10) \<and>
     (\<forall>k s. s \<in> set (SubscribersFor w k) \<and> length (chan_buf (chans w (Channel s))) = 10 \<longrightarrow>
        (\<exists>w'. BroadcastGameEvent k ev pick w = Inr w' \<and>
              chans w' (Channel s) = chans w (Channel s)))"
proof -
  from run_returns obtain w where r: "run calls init_world = Inr w" and inv: "inv_world w"
    by blast
  have create: "chans (snd (CreateGameSubscriber g ctx rnd w)) (Channel (fst (CreateGameSubscriber g ctx rnd w)))
       = \<lparr>chan_buf = [], chan_cap = 10, chan_closed = False\<rparr>"
    by (simp add: Create_snd Create_fst make_chan_def)
  have alloc: "chan_cap (chans w c) = 10 \<and> length (chan_buf (chans w c)) \<le> 10" if "c < next_chan w" for c
    using inv_worldD(7,8) [OF inv that] by simp
  have reg: "chan_cap (chans w (Channel s)) = 10 \<and> length (chan_buf (chans w (Channel s))) \<le> 10"
    if "s \<in> registered w" for s
  proof -
    from that obtain k where "s \<in> set (SubscribersFor w k)" unfolding registered_iff ..
    then have "Channel s < next_chan w" by (rule inv_worldD(4) [OF inv])
    then show ?thesis by (rule alloc)
  qed
  have full: "\<exists>w'. BroadcastGameEvent k ev pick w = Inr w' \<and> chans w' (Channel s) = chans w (Channel s)"
    if s: "s \<in> set (SubscribersFor w k)" and len: "length (chan_buf (chans w (Channel s))) = 10" for k s
  proof -
    from Broadcast_returns [OF inv] obtain w' where b: "BroadcastGameEvent k ev pick w = Inr w'"
      by blast
    from s obtain j where j: "j < length (SubscribersFor w k)" and sj: "SubscribersFor w k ! j = s"
      by (auto simp: in_set_conv_nth)
    have opn: "\<not> chan_closed (chans w (Channel s))" using s by (rule inv_worldD(5) [OF inv])
    have "chan_cap (chans w (Channel s)) = 10"
      using inv_worldD(4) [OF inv s] inv_worldD(7) [OF inv] by blast
    with len have "select_outcome w s (pick j) \<noteq> CaseSend"
      by (simp add: outcome_send_iff [OF opn])
    with Broadcast_chans [OF inv j b] sj have "chans w' (Channel s) = chans w (Channel s)"
      by simp
    with b show ?thesis by blast
  qed
  from r create reg alloc full show ?thesis by blast
qed

theorem queue_never_exceeds_capacity_witness:
  "run scenario4_calls init_world = Inr (world_queued (map numbered_event [0, 1, 2, 3, 4, 5, 6, 7, 8, 9])) \<and>
   S1 \<in> set (SubscribersFor (world_queued (map numbered_event [0, 1, 2, 3, 4, 5, 6, 7, 8, 9])) ''g1'') \<and>
   length (chan_buf (chans (world_queued (map numbered_event [0, 1, 2, 3, 4, 5, 6, 7, 8, 9])) (Channel S1))) = 10 \<and>
   (\<exists>w'. BroadcastGameEvent ''g1'' (numbered_event 10) prefer_send
            (world_queued (map numbered_event [0, 1, 2, 3, 4, 5, 6, 7, 8, 9])) = Inr w' \<and>
         chan_buf (chans w' (Channel S1)) = map numbered_event [0, 1, 2, 3, 4, 5, 6, 7, 8, 9])"
proof -
  let ?W = "world_queued (map numbered_event [0, 1, 2, 3, 4, 5, 6, 7, 8, 9])"
  from queue_never_exceeds_capacity [of scenario4_calls _ _ _ "numbered_event 10" prefer_send]
  obtain w :: "(nat, nat) world" where r: "run scenario4_calls init_world = Inr w"
    and p: "\<forall>k s. s \<in> set (SubscribersFor w k) \<and> length (chan_buf (chans w (Channel s))) = 10 \<longrightarrow>
        (\<exists>w'. BroadcastGameEvent k (numbered_event 10) prefer_send w = Inr w' \<and>
              chans w' (Channel s) = chans w (Channel s))"
    by blast
  from r have w: "w = ?W" by (simp only: scenario4_run sum.inject)
  have mem: "S1 \<in> set (SubscribersFor ?W ''g1'')"
    by (simp add: SubscribersFor_def world_queued_fields)
  have len: "length (chan_buf (chans ?W (Channel S1))) = 10"
    by (simp add: S1_fields world_queued_fields)
  from p have "S1 \<in> set (SubscribersFor w ''g1'') \<and> length (chan_buf (chans w (Channel S1))) = 10 \<longrightarrow>
        (\<exists>w'. BroadcastGameEvent ''g1'' (numbered_event 10) prefer_send w = Inr w' \<and>
              chans w' (Channel S1) = chans w (Channel S1))"
    by (rule allE) (erule allE)
  with mem len w obtain w' where
    b: "BroadcastGameEvent ''g1'' (numbered_event 10) prefer_send ?W = Inr w'"
    and c: "chans w' (Channel S1) = chans ?W (Channel S1)"
    by blast
  have "chan_buf (chans w' (Channel S1)) = map numbered_event [0, 1, 2, 3, 4, 5, 6, 7, 8, 9]"
    unfolding c by (simp add: S1_fields world_queued_fields)
  with b mem len scenario4_run show ?thesis by blast
qed

text \<open>Claim C3. After any finite sequence of calls from program start (registrations and
  deregistrations, and also broadcasts, scheduler steps, cancellations and receptions), a
  key is in the table exactly when its slice is non-empty; and removing the only entry of
  a slice deletes the key in the same call.\<close>

theorem registry_key_iff_nonempty:
  "\<exists>w. run calls init_world = Inr w \<and>
     (\<forall>k. k \<in> dom (gameSubscribers w) \<longleftrightarrow> SubscribersFor w k \<noteq> []) \<and>
     (\<forall>s sub. gameSubscribers w (GameID s) = Some [sub] \<and> ID sub = ID s \<longrightarrow>
        (\<exists>w'. RemoveGameSubscriber s w = Inr w' \<and> GameID s \<notin> dom (gameSubscribers w')))"
proof -
  from run_returns obtain w where r: "run calls init_world = Inr w" and inv: "inv_world w"
    by blast
  have a: "k \<in> dom (gameSubscribers w) \<longleftrightarrow> SubscribersFor w k \<noteq> []" for k
  proof (cases "gameSubscribers w k")
    case None
    then show ?thesis by (simp add: SubscribersFor_def dom_def)
  next
    case (Some subs)
    with inv_worldD(1) [OF inv, of k] have "subs \<noteq> []" by auto
    with Some show ?thesis by (simp add: SubscribersFor_def dom_def)
  qed
  have b: "\<exists>w'. RemoveGameSubscriber s w = Inr w' \<and> GameID s \<notin> dom (gameSubscribers w')"
    if gs: "gameSubscribers w (GameID s) = Some [sub]" and sub: "ID sub = ID s" for s sub
  proof -
    have "sub \<in> set (SubscribersFor w (GameID s))"
      using SubscribersFor_Some [OF gs] by simp
    then have "\<not> chan_closed (chans w (Channel sub))" by (rule inv_worldD(5) [OF inv])
    from Remove_last_entry [OF gs sub this] show ?thesis by (simp add: dom_def)
  qed
  from r a b show ?thesis by blast
qed

theorem registry_key_iff_nonempty_witness:
  "run [Register ''g1'' 0 [1, 2, 3, 4, 5, 6, 7, 8]] init_world = Inr world_g1 \<and>
   ''g1'' \<in> dom (gameSubscribers world_g1) \<and> SubscribersFor world_g1 ''g1'' \<noteq> [] \<and>
   gameSubscribers world_g1 (GameID S1) = Some [S1] \<and>
   (\<exists>w'. RemoveGameSubscriber S1 world_g1 = Inr w' \<and> ''g1'' \<notin> dom (gameSubscribers w'))"
proof -
  from registry_key_iff_nonempty [of "[Register ''g1'' 0 [1, 2, 3, 4, 5, 6, 7, 8]]"]
  obtain w :: "(nat, nat) world"
    where r: "run [Register ''g1'' 0 [1, 2, 3, 4, 5, 6, 7, 8]] init_world = Inr w"
    and p: "(\<forall>k. k \<in> dom (gameSubscribers w) \<longleftrightarrow> SubscribersFor w k \<noteq> []) \<and>
     (\<forall>s sub. gameSubscribers w (GameID s) = Some [sub] \<and> ID sub = ID s \<longrightarrow>
        (\<exists>w'. RemoveGameSubscriber s w = Inr w' \<and> GameID s \<notin> dom (gameSubscribers w')))"
    by blast
  from r have "w = world_g1" by (simp only: world_g1_run sum.inject)
  with p have *: "(\<forall>k. k \<in> dom (gameSubscribers world_g1) \<longleftrightarrow> SubscribersFor world_g1 k \<noteq> []) \<and>
     (\<forall>s sub. gameSubscribers world_g1 (GameID s) = Some [sub] \<and> ID sub = ID s \<longrightarrow>
        (\<exists>w'. RemoveGameSubscriber s world_g1 = Inr w' \<and> GameID s \<notin> dom (gameSubscribers w')))"
    by simp
  have gs: "gameSubscribers world_g1 (GameID S1) = Some [S1]"
    by (simp add: world_g1_fields S1_fields)
  from * have "''g1'' \<in> dom (gameSubscribers world_g1) \<longleftrightarrow> SubscribersFor world_g1 ''g1'' \<noteq> []"
    by blast
  moreover have "''g1'' \<in> dom (gameSubscribers world_g1)" by (simp add: world_g1_fields)
  moreover from * gs have "\<exists>w'. RemoveGameSubscriber S1 world_g1 = Inr w' \<and> GameID S1 \<notin> dom (gameSubscribers w')"
    by blast
  ultimately show ?thesis using gs world_g1_run by (simp add: S1_fields)
qed

text \<open>Claim C4 as stated fails. With \<open>S1\<close> the only subscriber of "g1", its context
  cancelled and its channel empty, both communications of the \<^verbatim>\<open>select\<close> can proceed;
  when the runtime takes the send case the event is enqueued, no removal is scheduled,
  and after the broadcast \<open>S1\<close> is still registered with an open channel.\<close>

theorem cancelled_only_subscriber_stays_counterexample:
  "run [Register ''g1'' 0 [1, 2, 3, 4, 5, 6, 7, 8], Cancel 0] init_world = Inr world_g1_cancelled \<and>
   gameSubscribers world_g1_cancelled ''g1'' = Some [S1] \<and>
   ctx_done world_g1_cancelled (Context S1) \<and>
   BroadcastGameEvent ''g1'' move_event prefer_send world_g1_cancelled = Inr world_g1_delivered \<and>
   SubscribersFor world_g1_delivered ''g1'' = [S1] \<and>
   ''g1'' \<in> dom (gameSubscribers world_g1_delivered) \<and>
   \<not> chan_closed (chans world_g1_delivered (Channel S1)) \<and>
   spawned world_g1_delivered = []"
proof (intro conjI)
  show "run [Register ''g1'' 0 [1, 2, 3, 4, 5, 6, 7, 8], Cancel 0] init_world = Inr world_g1_cancelled"
    by (rule world_g1_cancelled_run)
  show "gameSubscribers world_g1_cancelled ''g1'' = Some [S1]"
    by (simp add: world_g1_cancelled_fields)
  show "ctx_done world_g1_cancelled (Context S1)"
    by (simp add: world_g1_cancelled_fields S1_fields)
  show "BroadcastGameEvent ''g1'' move_event prefer_send world_g1_cancelled = Inr world_g1_delivered"
    by (rule broadcast_cancelled_send)
  show "SubscribersFor world_g1_delivered ''g1'' = [S1]"
    by (simp add: world_g1_delivered_def SubscribersFor_def world_g1_cancelled_fields)
  show "''g1'' \<in> dom (gameSubscribers world_g1_delivered)"
    by (simp add: world_g1_delivered_def world_g1_cancelled_fields)
  show "\<not> chan_closed (chans world_g1_delivered (Channel S1))"
    by (simp add: world_g1_delivered_def S1_fields make_chan_def)
  show "spawned world_g1_delivered = []"
    by (simp add: world_g1_delivered_def world_g1_cancelled_fields)
qed

text \<open>Claim C4, amended. If the only subscriber of a session is cancelled and the
  \<^verbatim>\<open>select\<close> takes the cancellation case (it must when the channel is full, it may
  otherwise), then the broadcast returns with the table unchanged and the removal
  spawned; once the scheduler has run that goroutine the key is absent, the slice is
  empty, and the channel, open before, is closed; a further removal changes nothing, so
  the channel is closed exactly once.\<close>

theorem cancelled_only_subscriber_removed_by_spawned_task:
  "\<exists>w. run calls init_world = Inr w \<and>
     (gameSubscribers w g = Some [s] \<and> ctx_done w (Context s) \<and>
      (length (chan_buf (chans w (Channel s))) = 10 \<or> \<not> pick 0) \<longrightarrow>
      (\<exists>w1 w2. BroadcastGameEvent g ev pick w = Inr w1 \<and>
          gameSubscribers w1 = gameSubscribers w \<and> chans w1 = chans w \<and>
          spawned w1 = spawned w @ [s] \<and>
          run_spawned (length (spawned w)) w1 = Inr w2 \<and>
          g \<notin> dom (gameSubscribers w2) \<and> SubscribersFor w2 g = [] \<and>
          \<not> chan_closed (chans w (Channel s)) \<and> chan_closed (chans w2 (Channel s)) \<and>
          RemoveGameSubscriber s w2 = Inr w2))"
proof -
  from run_returns obtain w where r: "run calls init_world = Inr w" and inv: "inv_world w"
    by blast
  have main: "\<exists>w1 w2. BroadcastGameEvent g ev pick w = Inr w1 \<and>
          gameSubscribers w1 = gameSubscribers w \<and> chans w1 = chans w \<and>
          spawned w1 = spawned w @ [s] \<and>
          run_spawned (length (spawned w)) w1 = Inr w2 \<and>
          g \<notin> dom (gameSubscribers w2) \<and> SubscribersFor w2 g = [] \<and>
          \<not> chan_closed (chans w (Channel s)) \<and> chan_closed (chans w2 (Channel s)) \<and>
          RemoveGameSubscriber s w2 = Inr w2"
    if gs: "gameSubscribers w g = Some [s]" and dn: "ctx_done w (Context s)"
      and pk: "length (chan_buf (chans w (Channel s))) = 10 \<or> \<not> pick 0"
  proof -
    have mem: "s \<in> set (SubscribersFor w g)" using SubscribersFor_Some [OF gs] by simp
    have g: "GameID s = g" using mem by (rule inv_worldD(3) [OF inv])
    have opn: "\<not> chan_closed (chans w (Channel s))" using mem by (rule inv_worldD(5) [OF inv])
    have cap: "chan_cap (chans w (Channel s)) = 10"
      using inv_worldD(4) [OF inv mem] inv_worldD(7) [OF inv] by blast
    have out: "select_outcome w s (pick 0) = CaseDone"
      using dn pk cap by (auto simp: outcome_done_iff [OF opn])
    define w1 where "w1 = w\<lparr>spawned := spawned w @ [s]\<rparr>"
    define w2 where "w2 = w\<lparr>gameSubscribers := (gameSubscribers w)(GameID s := None),
            chans := (chans w)(Channel s := (chans w (Channel s))\<lparr>chan_closed := True\<rparr>)\<rparr>"
    have b: "BroadcastGameEvent g ev pick w = Inr w1"
      unfolding w1_def using gs out by (rule Broadcast_single_cancelled)
    have gs': "gameSubscribers w (GameID s) = Some [s]" using gs g by simp
    have rm: "RemoveGameSubscriber s w = Inr w2"
      unfolding w2_def using gs' refl opn by (rule Remove_last_entry)
    have rs: "run_spawned (length (spawned w)) w1 = Inr w2"
      unfolding w1_def run_spawned_last by (rule rm)
    have absent: "gameSubscribers w2 (GameID s) = None" by (simp add: w2_def)
    have again: "RemoveGameSubscriber s w2 = Inr w2" using absent by (rule Remove_absent)
    have "gameSubscribers w1 = gameSubscribers w" "chans w1 = chans w" "spawned w1 = spawned w @ [s]"
      by (simp_all add: w1_def)
    moreover have "g \<notin> dom (gameSubscribers w2)" "SubscribersFor w2 g = []"
      using absent g by (auto simp: SubscribersFor_def)
    moreover have "chan_closed (chans w2 (Channel s))" by (simp add: w2_def)
    ultimately show ?thesis using b rs opn again by blast
  qed
  from r main show ?thesis by blast
qed

theorem cancelled_only_subscriber_removed_by_spawned_task_witness:
  "run [Register ''g1'' 0 [1, 2, 3, 4, 5, 6, 7, 8], Cancel 0] init_world = Inr world_g1_cancelled \<and>
   gameSubscribers world_g1_cancelled ''g1'' = Some [S1] \<and>
   ctx_done world_g1_cancelled (Context S1) \<and> \<not> prefer_done 0 \<and>
   (\<exists>w1 w2. BroadcastGameEvent ''g1'' move_event prefer_done world_g1_cancelled = Inr w1 \<and>
       gameSubscribers w1 ''g1'' = Some [S1] \<and> spawned w1 = [S1] \<and>
       run_spawned 0 w1 = Inr w2 \<and>
       ''g1'' \<notin> dom (gameSubscribers w2) \<and> SubscribersFor w2 ''g1'' = [] \<and>
       chan_closed (chans w2 (Channel S1)))"
proof -
  from cancelled_only_subscriber_removed_by_spawned_task
    [of "[Register ''g1'' 0 [1, 2, 3, 4, 5, 6, 7, 8], Cancel 0]" "''g1''" S1 prefer_done move_event]
  obtain w :: "(nat, nat) world"
    where r: "run [Register ''g1'' 0 [1, 2, 3, 4, 5, 6, 7, 8], Cancel 0] init_world = Inr w"
    and p: "gameSubscribers w ''g1'' = Some [S1] \<and> ctx_done w (Context S1) \<and>
      (length (chan_buf (chans w (Channel S1))) = 10 \<or> \<not> prefer_done 0) \<longrightarrow>
      (\<exists>w1 w2. BroadcastGameEvent ''g1'' move_event prefer_done w = Inr w1 \<and>
          gameSubscribers w1 = gameSubscribers w \<and> chans w1 = chans w \<and>
          spawned w1 = spawned w @ [S1] \<and>
          run_spawned (length (spawned w)) w1 = Inr w2 \<and>
          ''g1'' \<notin> dom (gameSubscribers w2) \<and> SubscribersFor w2 ''g1'' = [] \<and>
          \<not> chan_closed (chans w (Channel S1)) \<and> chan_closed (chans w2 (Channel S1)) \<and>
          RemoveGameSubscriber S1 w2 = Inr w2)"
    by blast
  from r have w: "w = world_g1_cancelled" by (simp only: world_g1_cancelled_run sum.inject)
  have h: "gameSubscribers world_g1_cancelled ''g1'' = Some [S1]"
    "ctx_done world_g1_cancelled (Context S1)" "\<not> prefer_done 0"
    by (simp_all add: world_g1_cancelled_fields S1_fields prefer_done_def)
  with p w obtain w1 w2 where
    "BroadcastGameEvent ''g1'' move_event prefer_done world_g1_cancelled = Inr w1"
    "gameSubscribers w1 = gameSubscribers world_g1_cancelled"
    "spawned w1 = spawned world_g1_cancelled @ [S1]"
    "run_spawned (length (spawned world_g1_cancelled)) w1 = Inr w2"
    "''g1'' \<notin> dom (gameSubscribers w2)" "SubscribersFor w2 ''g1'' = []"
    "chan_closed (chans w2 (Channel S1))"
    by blast
  then have "BroadcastGameEvent ''g1'' move_event prefer_done world_g1_cancelled = Inr w1 \<and>
       gameSubscribers w1 ''g1'' = Some [S1] \<and> spawned w1 = [S1] \<and>
       run_spawned 0 w1 = Inr w2 \<and>
       ''g1'' \<notin> dom (gameSubscribers w2) \<and> SubscribersFor w2 ''g1'' = [] \<and>
       chan_closed (chans w2 (Channel S1))"
    by (simp add: world_g1_cancelled_fields)
  with h world_g1_cancelled_run show ?thesis by blast
qed




text \<open>Claim C7. In a reachable world a broadcast to session \<open>A\<close> returns normally and
  leaves every channel that does not belong to a subscriber of \<open>A\<close> as it was; a
  subscriber registered for another session \<open>B\<close> is not in the slice of \<open>A\<close>, and its
  channel is untouched.\<close>

theorem broadcast_session_isolation:
  "\<exists>w. run calls init_world = Inr w \<and>
     (\<exists>w'. BroadcastGameEvent A ev pick w = Inr w' \<and>
        (\<forall>c. c \<notin> Channel ` set (SubscribersFor w A) \<longrightarrow> chans w' c = chans w c) \<and>
        (\<forall>B s. B \<noteq> A \<and> s \<in> set (SubscribersFor w B) \<longrightarrow>
           s \<notin> set (SubscribersFor w A) \<and> chans w' (Channel s) = chans w (Channel s)))"
proof -
  from run_returns obtain w where r: "run calls init_world = Inr w" and inv: "inv_world w"
    by blast
  from Broadcast_returns [OF inv] obtain w' where b: "BroadcastGameEvent A ev pick w = Inr w'"
    by blast
  have other: "chans w' c = chans w c" if "c \<notin> Channel ` set (SubscribersFor w A)" for c
    using b that by (rule Broadcast_other_channels)
  have iso: "s \<notin> set (SubscribersFor w A) \<and> chans w' (Channel s) = chans w (Channel s)"
    if ne: "B \<noteq> A" and s: "s \<in> set (SubscribersFor w B)" for B s
  proof -
    have g: "GameID s = B" using s by (rule inv_worldD(3) [OF inv])
    have notA: "x \<noteq> s" if "x \<in> set (SubscribersFor w A)" for x
      using inv_worldD(3) [OF inv that] g ne by auto
    have "Channel s \<notin> Channel ` set (SubscribersFor w A)"
    proof
      assume "Channel s \<in> Channel ` set (SubscribersFor w A)"
      then obtain x where x: "x \<in> set (SubscribersFor w A)" and eq: "Channel s = Channel x"
        by blast
      have "x \<in> registered w" "s \<in> registered w"
        using x s unfolding registered_def by blast+
      with inv_worldD(6) [OF inv] eq have "s = x" by (metis inj_onD)
      with notA [OF x] show False by simp
    qed
    from other [OF this] notA show ?thesis by blast
  qed
  from r b other iso show ?thesis by blast
qed

theorem broadcast_session_isolation_witness:
  "run [Register ''g1'' 0 [1, 2, 3, 4, 5, 6, 7, 8], Register ''g2'' 1 [9, 10, 11, 12, 13, 14, 15, 16]]
     init_world = Inr world_g1_g2 \<and>
   ''g2'' \<noteq> ''g1'' \<and> S2 \<in> set (SubscribersFor world_g1_g2 ''g2'') \<and>
   (\<exists>w'. BroadcastGameEvent ''g1'' move_event prefer_send world_g1_g2 = Inr w' \<and>
      S2 \<notin> set (SubscribersFor world_g1_g2 ''g1'') \<and>
      chan_buf (chans w' (Channel S2)) = [] \<and> chan_buf (chans w' (Channel S1)) = [move_event])"
proof -
  from broadcast_session_isolation
    [of "[Register ''g1'' 0 [1, 2, 3, 4, 5, 6, 7, 8], Register ''g2'' 1 [9, 10, 11, 12, 13, 14, 15, 16]]"
        "''g1''" move_event prefer_send]
  obtain w w' :: "(nat, nat) world"
    where r: "run [Register ''g1'' 0 [1, 2, 3, 4, 5, 6, 7, 8],
                   Register ''g2'' 1 [9, 10, 11, 12, 13, 14, 15, 16]] init_world = Inr w"
    and b: "BroadcastGameEvent ''g1'' move_event prefer_send w = Inr w'"
    and p: "\<forall>B s. B \<noteq> ''g1'' \<and> s \<in> set (SubscribersFor w B) \<longrightarrow>
           s \<notin> set (SubscribersFor w ''g1'') \<and> chans w' (Channel s) = chans w (Channel s)"
    by blast
  from r have w: "w = world_g1_g2" by (simp only: world_g1_g2_run sum.inject)
  have mem: "S2 \<in> set (SubscribersFor world_g1_g2 ''g2'')"
    by (simp add: SubscribersFor_def world_g1_g2_fields)
  have ne: "''g2'' \<noteq> ''g1''" by simp
  from p have "''g2'' \<noteq> ''g1'' \<and> S2 \<in> set (SubscribersFor w ''g2'') \<longrightarrow>
      S2 \<notin> set (SubscribersFor w ''g1'') \<and> chans w' (Channel S2) = chans w (Channel S2)"
    by (rule allE) (erule allE)
  with ne mem w have iso: "S2 \<notin> set (SubscribersFor world_g1_g2 ''g1'') \<and>
      chans w' (Channel S2) = chans world_g1_g2 (Channel S2)"
    by blast
  have sent: "BroadcastGameEvent ''g1'' move_event prefer_send world_g1_g2 =
     Inr (world_g1_g2\<lparr>chans := (chans world_g1_g2)(0 := (make_chan 10)\<lparr>chan_buf := [move_event]\<rparr>)\<rparr>)"
    by (simp add: BroadcastGameEvent_def world_g1_g2_fields select_step_def select_outcome_def
      S1_fields send_ready_def make_chan_def choose_case_def prefer_send_def chan_send_def)
  with b w have "w' = world_g1_g2\<lparr>chans := (chans world_g1_g2)(0 := (make_chan 10)\<lparr>chan_buf := [move_event]\<rparr>)\<rparr>"
    by simp
  then have "chan_buf (chans w' (Channel S1)) = [move_event]"
    by (simp add: S1_fields)
  then have b1: "chan_buf (chans w' (Channel S1)) = [move_event]" .
  have b2: "chan_buf (chans w' (Channel S2)) = []"
    using iso by (simp add: S2_fields world_g1_g2_fields make_chan_def)
  have bw: "BroadcastGameEvent ''g1'' move_event prefer_send world_g1_g2 = Inr w'"
    using b w by simp
  show ?thesis
  proof (intro conjI)
    show "run [Register ''g1'' 0 [1, 2, 3, 4, 5, 6, 7, 8],
               Register ''g2'' 1 [9, 10, 11, 12, 13, 14, 15, 16]] init_world = Inr world_g1_g2"
      by (rule world_g1_g2_run)
    show "''g2'' \<noteq> ''g1''" by simp
    show "S2 \<in> set (SubscribersFor world_g1_g2 ''g2'')" by (rule mem)
    show "\<exists>w'. BroadcastGameEvent ''g1'' move_event prefer_send world_g1_g2 = Inr w' \<and>
      S2 \<notin> set (SubscribersFor world_g1_g2 ''g1'') \<and>
      chan_buf (chans w' (Channel S2)) = [] \<and> chan_buf (chans w' (Channel S1)) = [move_event]"
      using bw iso b1 b2 by blast
  qed
qed

text \<open>Claim C8. When the key \<open>gameID\<close> is absent from the table,
  \<^verbatim>\<open>BroadcastGameEvent\<close> returns normally and the whole world (table, channels, contexts,
  spawned goroutines) is as before.\<close>

theorem broadcast_unwatched_session:
  "gameSubscribers w gameID = None \<Longrightarrow> BroadcastGameEvent gameID event pick w = Inr w"
  by (simp add: BroadcastGameEvent_def)

theorem broadcast_unwatched_session_witness:
  "gameSubscribers world_g1 ''g2'' = None \<and>
   BroadcastGameEvent ''g2'' move_event prefer_send world_g1 = Inr world_g1"
proof -
  have h: "gameSubscribers world_g1 ''g2'' = None" by (simp add: world_g1_fields)
  from h broadcast_unwatched_session [OF h] show ?thesis by simp
qed

text \<open>Claim C9 as stated fails: the event that the source enqueues is tagged "game_status",
  not "status", so the source and the specification's wording leave different queues.\<close>

theorem personalized_status_tag_counterexample:
  "BroadcastPersonalizedGameStatus ''g1'' 7 prefer_send world_g1 \<noteq>
     spec_BroadcastPersonalized ''g1'' 7 prefer_send world_g1"
proof
  assume eq: "BroadcastPersonalizedGameStatus ''g1'' 7 prefer_send world_g1 =
     spec_BroadcastPersonalized ''g1'' 7 prefer_send world_g1"
  have "map_sum id (\<lambda>w. chan_buf (chans w 0)) (BroadcastPersonalizedGameStatus ''g1'' 7 prefer_send world_g1) =
      Inr [game_status_event ''g1'' 7]"
    by (simp add: Personalized_eq_Broadcast broadcast_g1_send)
  moreover have "map_sum id (\<lambda>w. chan_buf (chans w 0)) (spec_BroadcastPersonalized ''g1'' 7 prefer_send world_g1) =
      Inr [spec_status_event ''g1'' 7]"
    by (simp add: spec_BroadcastPersonalized_def broadcast_g1_send)
  ultimately have "(game_status_event ''g1'' 7 :: (nat, nat) GameEvent) = spec_status_event ''g1'' 7"
    using eq by simp
  then show False
    by (simp add: game_status_event_def spec_status_event_def)
qed

text \<open>Claim C9, amended. \<^verbatim>\<open>BroadcastPersonalizedGameStatus\<close> is \<^verbatim>\<open>BroadcastGameEvent\<close>
  applied to one event, the same for every subscriber, whose type tag is "game_status" and
  whose payload is the map of the session identifier and the game; the outcomes per
  subscriber are therefore the same.\<close>

theorem personalized_is_broadcast_of_game_status:
  "BroadcastPersonalizedGameStatus gameID game pick w =
     BroadcastGameEvent gameID (game_status_event gameID game) pick w \<and>
   Type (game_status_event gameID game :: ('g, 'd) GameEvent) = ''game_status'' \<and>
   Data (game_status_event gameID game :: ('g, 'd) GameEvent) =
     AMap [(''gameID'', AString gameID), (''game'', AGame game)]"
  by (simp add: Personalized_eq_Broadcast game_status_event_def)

text \<open>Claim C10. In every world that a run of the program reaches, both broadcast functions
  return normally, leave the table \<^verbatim>\<open>gameSubscribers\<close> as it was, and only append the
  cancelled subscribers to the spawned goroutines.\<close>

theorem broadcast_leaves_registry:
  assumes "run calls init_world = Inr w"
  shows "(\<exists>w'. BroadcastGameEvent g ev pick w = Inr w' \<and> gameSubscribers w' = gameSubscribers w \<and>
            spawned w' = spawned w @ scheduled_removals w pick 0 (SubscribersFor w g)) \<and>
         (\<exists>w'. BroadcastPersonalizedGameStatus g game pick w = Inr w' \<and>
            gameSubscribers w' = gameSubscribers w \<and>
            spawned w' = spawned w @ scheduled_removals w pick 0 (SubscribersFor w g))"
proof -
  have inv: "inv_world w" using assms by (rule run_inv)
  have main: "\<exists>w'. BroadcastGameEvent g e pick w = Inr w' \<and> gameSubscribers w' = gameSubscribers w \<and>
            spawned w' = spawned w @ scheduled_removals w pick 0 (SubscribersFor w g)" for e
  proof (cases "gameSubscribers w g")
    case None
    then show ?thesis by (simp add: BroadcastGameEvent_def SubscribersFor_def)
  next
    case (Some subs)
    from Broadcast_returns [OF inv] obtain w' where
      b: "BroadcastGameEvent g e pick w = Inr w'" by blast
    with Some have lp: "broadcast_loop e pick 0 subs w = Inr w'"
      by (simp add: BroadcastGameEvent_def)
    have sf: "SubscribersFor w g = subs" using Some by (rule SubscribersFor_Some)
    have d: "distinct (map Channel subs)"
      using inv_distinct_channels [OF inv, of g] sf by simp
    from broadcast_loop_frame [OF lp] broadcast_loop_spawned [OF lp d] b sf
    show ?thesis by simp
  qed
  show ?thesis
    using main [of ev] main [of "game_status_event g game"]
    by (simp add: Personalized_eq_Broadcast)
qed

theorem broadcast_leaves_registry_witness:
  "run [Register ''g1'' 0 [1, 2, 3, 4, 5, 6, 7, 8], Cancel 0] init_world = Inr (cancel 0 world_g1) \<and>
   (\<exists>w'. BroadcastGameEvent ''g1'' move_event prefer_done (cancel 0 world_g1) = Inr w' \<and>
      gameSubscribers w' = [''g1'' \<mapsto> [S1]] \<and> spawned w' = [S1])"
proof -
  have h: "run [Register ''g1'' 0 [1, 2, 3, 4, 5, 6, 7, 8], Cancel 0] init_world = Inr (cancel 0 world_g1)"
    by (simp add: world_g1_def)
  have "scheduled_removals (cancel 0 world_g1) prefer_done 0 [S1] = [S1]"
    by (simp add: select_outcome_def choose_case_def cancel_def S1_fields prefer_done_def)
  with h broadcast_leaves_registry [OF h, of "''g1''" move_event prefer_done 7] show ?thesis
    by (simp add: cancel_def world_g1_fields SubscribersFor_def)
qed

end
